theory Spec2Isabelle
  imports Main "HOL-Library.Word" "HOL-Library.AList"
begin

unbundle bit_operations_syntax

section \<open>The BER encoder of pyasn1 (\<^verbatim>\<open>pyasn1/codec/ber/encoder.py\<close>)\<close>

text \<open>
  Python integers are unbounded and are modelled as \<^typ>\<open>int\<close>; \<^verbatim>\<open>x >> k\<close> is
  \<^term>\<open>drop_bit k x\<close> (floor division by \<open>2 ^ k\<close>), \<^verbatim>\<open>&\<close> and \<^verbatim>\<open>|\<close> are \<open>AND\<close> and
  \<open>OR\<close> on \<^typ>\<open>int\<close> (two's complement with infinite sign extension, as in Python).
  An octet string is the list of its octets, each an integer in \<open>0..255\<close>.

  A computation of the encoder has three outcomes: it returns a value, it raises an
  exception, or it does not return. Functions that always return have the type of their
  result; functions that may raise return \<open>error + 'a\<close>; functions that contain a loop
  which does not end on some arguments return \<open>(error + 'a) option\<close>, where \<open>None\<close>
  stands for a run that never returns. A computation that may change the value it works on
  ends, when it ends, with the value as it is then, also when it raises: its outcome is
  \<open>(error \<times> 's + 'a \<times> 's) option\<close>, where \<open>'s\<close> is the type of what may change.
\<close>

subsection \<open>Exceptions and octets\<close>

datatype error =
    ValueError                    \<comment> \<open>Python's \<^verbatim>\<open>ValueError\<close>: an octet outside \<open>0..255\<close>\<close>
  | TypeError                     \<comment> \<open>a value of a class the codec cannot read\<close>
  | NotImplemented                \<comment> \<open>\<^verbatim>\<open>Error('Not implemented')\<close>\<close>
  | LengthOctetsOverflow int      \<comment> \<open>\<^verbatim>\<open>Error('Length octets overflow (%d)')\<close>\<close>
  | NoEncoder                     \<comment> \<open>\<^verbatim>\<open>Error('No encoder for %s')\<close>\<close>
  | ShortOID                      \<comment> \<open>\<^verbatim>\<open>PyAsn1Error('Short OID %s')\<close>\<close>
  | InitialSubIdOverflow          \<comment> \<open>\<^verbatim>\<open>PyAsn1Error('Initial sub-ID overflow ...')\<close>\<close>
  | SubIdOverflow int             \<comment> \<open>\<^verbatim>\<open>PyAsn1Error('SubId overflow %s in %s')\<close>\<close>
  | RealExponentOverflow          \<comment> \<open>\<^verbatim>\<open>PyAsn1Error('Real exponent overflow')\<close>\<close>
  | ProhibitedRealBase int        \<comment> \<open>\<^verbatim>\<open>PyAsn1Error('Prohibited Real base %s')\<close>\<close>
  | UninitializedComponent nat    \<comment> \<open>raised by the value's \<^verbatim>\<open>setDefaultComponents\<close>\<close>
  | SizeConstraintViolation       \<comment> \<open>raised by the value's \<^verbatim>\<open>verifySizeSpec\<close>\<close>
  | ComponentNotChosen            \<comment> \<open>raised by a CHOICE value's \<^verbatim>\<open>getComponent\<close>\<close>

type_synonym octets = "int list"

type_synonym 'a res = "(error + 'a) option"

type_synonym ('a, 's) sres = "(error \<times> 's + 'a \<times> 's) option"

text \<open>Sequencing of computations: an exception or a run that does not return ends the rest.\<close>

definition rbind :: "('e + 'a) option \<Rightarrow> ('a \<Rightarrow> ('e + 'b) option) \<Rightarrow> ('e + 'b) option" where
  "rbind m k = (case m of None \<Rightarrow> None | Some (Inl e) \<Rightarrow> Some (Inl e) | Some (Inr x) \<Rightarrow> k x)"

lemma rbind_mono [partial_function_mono]:
  assumes mf: "mono_option B" and mg: "\<And>y. mono_option (\<lambda>f. C y f)"
  shows "mono_option (\<lambda>f. rbind (B f) (\<lambda>y. C y f))"
proof -
  have eq: "\<And>f. rbind (B f) (\<lambda>y. C y f)
      = Option.bind (B f) (\<lambda>r. case r of Inl e \<Rightarrow> Some (Inl e) | Inr x \<Rightarrow> C x f)"
    by (auto simp: rbind_def split: option.splits sum.splits)
  show ?thesis unfolding eq
  proof (rule bind_mono[OF mf])
    fix r show "mono_option (\<lambda>f. case r of Inl e \<Rightarrow> Some (Inl e) | Inr x \<Rightarrow> C x f)"
      by (cases r) (simp_all add: mg option.const_mono)
  qed
qed

text \<open>
  A computation that changes nothing, run on the value \<open>s\<close>: both outcomes carry \<open>s\<close>.
\<close>

definition with_state :: "'s \<Rightarrow> 'a res \<Rightarrow> ('a, 's) sres" where
  "with_state s m =
     Option.bind m (\<lambda>r. case r of Inl e \<Rightarrow> Some (Inl (e, s)) | Inr x \<Rightarrow> Some (Inr (x, s)))"

text \<open>
  A computation on a part \<open>'s\<close> of a whole \<open>'t\<close>: \<open>f\<close> gives the whole from the part as it is when
  the computation ends, by returning or by raising.
\<close>

definition in_state :: "('s \<Rightarrow> 't) \<Rightarrow> ('a, 's) sres \<Rightarrow> ('a, 't) sres" where
  "in_state f m =
     Option.bind m (\<lambda>r. case r of Inl (e, s) \<Rightarrow> Some (Inl (e, f s)) | Inr (x, s) \<Rightarrow> Some (Inr (x, f s)))"

text \<open>The outcome of a computation on an object that nothing refers to afterwards.\<close>

definition forget :: "('a, 's) sres \<Rightarrow> 'a res" where
  "forget m =
     Option.bind m (\<lambda>r. case r of Inl (e, s) \<Rightarrow> Some (Inl e) | Inr (x, s) \<Rightarrow> Some (Inr x))"

lemma with_state_mono [partial_function_mono]:
  assumes "mono_option B"
  shows "mono_option (\<lambda>f. with_state s (B f))"
  unfolding with_state_def by (rule bind_mono[OF assms]) (simp add: option.const_mono)

lemma in_state_mono [partial_function_mono]:
  assumes "mono_option B"
  shows "mono_option (\<lambda>f. in_state g (B f))"
  unfolding in_state_def by (rule bind_mono[OF assms]) (simp add: option.const_mono)

lemma forget_mono [partial_function_mono]:
  assumes "mono_option B"
  shows "mono_option (\<lambda>f. forget (B f))"
  unfolding forget_def by (rule bind_mono[OF assms]) (simp add: option.const_mono)

text \<open>
  \<^verbatim>\<open>int2oct\<close> and \<^verbatim>\<open>ints2octs\<close> of \<^verbatim>\<open>pyasn1.compat.octets\<close> (\<^verbatim>\<open>chr\<close> / \<^verbatim>\<open>bytes\<close>): both
  raise \<^verbatim>\<open>ValueError\<close> on an integer outside \<open>0..255\<close>.
\<close>

definition int2oct :: "int \<Rightarrow> error + octets" where
  "int2oct x = (if 0 \<le> x \<and> x < 256 then Inr [x] else Inl ValueError)"

definition ints2octs :: "int list \<Rightarrow> error + octets" where
  "ints2octs xs = (if \<forall>x \<in> set xs. 0 \<le> x \<and> x < 256 then Inr xs else Inl ValueError)"

subsection \<open>Tags\<close>

text \<open>A tag as \<^verbatim>\<open>Tag.asTuple()\<close> returns it: class, format and number.\<close>

record tag =
  tagClass :: int
  tagFormat :: int
  tagId :: int

definition tagFormatConstructed :: int where
  "tagFormatConstructed = 0x20"

subsection \<open>\<^verbatim>\<open>AbstractItemEncoder.encodeTag\<close>\<close>

text \<open>
  The loop \<^verbatim>\<open>while tagId: s = int2oct(0x80|(tagId&0x7f)) + s; tagId = tagId >> 7\<close>.
  On a negative number the shift never reaches \<open>0\<close>, so the loop is a partial function.
\<close>

partial_function (option) encodeTag_loop :: "int \<Rightarrow> octets \<Rightarrow> octets res" where
  "encodeTag_loop tagId' s =
     (if tagId' \<noteq> 0
      then rbind (Some (int2oct (0x80 OR (tagId' AND 0x7f))))
             (\<lambda>b. encodeTag_loop (drop_bit 7 tagId') (b @ s))
      else Some (Inr s))"

declare encodeTag_loop.simps [code]

definition encodeTag :: "tag \<Rightarrow> bool \<Rightarrow> octets res" where
  "encodeTag t isConstructed =
     (let v = tagClass t OR tagFormat t;
          v = (if isConstructed then v OR tagFormatConstructed else v)
      in if tagId t < 31 then Some (int2oct (v OR tagId t))
         else rbind (Some (int2oct (tagId t AND 0x7f))) (\<lambda>s.
              rbind (encodeTag_loop (drop_bit 7 (tagId t)) s) (\<lambda>s.
              rbind (Some (int2oct (v OR 0x1F))) (\<lambda>h. Some (Inr (h @ s))))))"

subsection \<open>\<^verbatim>\<open>IntegerEncoder.encodeValue\<close>\<close>

text \<open>
  The first loop, \<^verbatim>\<open>while 1: octets.insert(0, value & 0xff); if value == 0 or value == -1:
  break; value = value >> 8\<close>, returns the final \<^verbatim>\<open>value\<close> and the octets.
\<close>

function IntegerEncoder_loop :: "int \<Rightarrow> int list \<Rightarrow> int \<times> int list" where
  "IntegerEncoder_loop v octets =
     (let octets' = (v AND 0xff) # octets in
      if v = 0 \<or> v = -1 then (v, octets')
      else IntegerEncoder_loop (drop_bit 8 v) octets')"
  by pat_completeness auto
termination
proof (relation "measure (\<lambda>(v, octets). nat \<bar>v\<bar>)")
  show "wf (measure (\<lambda>(v, octets). nat \<bar>v\<bar>))" by simp
next
  fix v :: int and octets x :: "int list"
  assume "\<not> (v = 0 \<or> v = - 1)"
  then have "\<bar>v div 256\<bar> < \<bar>v\<bar>" by linarith
  then show "((drop_bit 8 v, x), (v, octets)) \<in> measure (\<lambda>(v, octets). nat \<bar>v\<bar>)"
    by (simp add: drop_bit_eq_div)
qed

text \<open>
  The second loop, \<^verbatim>\<open>while len(octets) > 1 and (octets[0] == 0 and octets[1] & 0x80 == 0 or
  octets[0] == 0xff and octets[1] & 0x80 != 0): del octets[0]\<close>.
\<close>

fun IntegerEncoder_strip :: "int list \<Rightarrow> int list" where
  "IntegerEncoder_strip (a # b # rest) =
     (if (a = 0 \<and> b AND 0x80 = 0) \<or> (a = 0xff \<and> b AND 0x80 \<noteq> 0)
      then IntegerEncoder_strip (b # rest) else a # b # rest)"
| "IntegerEncoder_strip octets = octets"

text \<open>
  \<^verbatim>\<open>octets[0]\<close> is \<^term>\<open>hd octets\<close>: the first loop has inserted at least one octet.
  The result is the pair of the content octets and the is-constructed flag (\<^verbatim>\<open>0\<close>).
\<close>

definition IntegerEncoder_encodeValue :: "int \<Rightarrow> error + (octets \<times> bool)" where
  "IntegerEncoder_encodeValue n =
     (case IntegerEncoder_loop n [] of (v, octets) \<Rightarrow>
        let octets1 = (if v = 0 \<and> hd octets AND 0x80 \<noteq> 0 then 0 # octets else octets);
            octets2 = IntegerEncoder_strip octets1
        in case ints2octs octets2 of Inl e \<Rightarrow> Inl e | Inr s \<Rightarrow> Inr (s, False))"

subsection \<open>\<^verbatim>\<open>AbstractItemEncoder.encodeLength\<close>\<close>

text \<open>
  The loop \<^verbatim>\<open>while length: substrate = int2oct(length&0xff) + substrate; length = length >> 8\<close>;
  like the loop of \<^verbatim>\<open>encodeTag\<close> it does not end on a negative number.
\<close>

partial_function (option) encodeLength_loop :: "int \<Rightarrow> octets \<Rightarrow> octets res" where
  "encodeLength_loop length' substrate =
     (if length' \<noteq> 0
      then rbind (Some (int2oct (length' AND 0xff)))
             (\<lambda>b. encodeLength_loop (drop_bit 8 length') (b @ substrate))
      else Some (Inr substrate))"

declare encodeLength_loop.simps [code]

text \<open>
  The class attribute \<^verbatim>\<open>supportIndefLenMode\<close> of the codec is the first argument.
\<close>

definition encodeLength :: "bool \<Rightarrow> int \<Rightarrow> bool \<Rightarrow> octets res" where
  "encodeLength supportIndefLenMode length' defMode =
     (if \<not> defMode \<and> supportIndefLenMode then Some (int2oct 0x80)
      else if length' < 0x80 then Some (int2oct length')
      else rbind (encodeLength_loop length' []) (\<lambda>substrate.
           let substrateLen = int (length substrate) in
           if substrateLen > 126 then Some (Inl (LengthOctetsOverflow substrateLen))
           else rbind (Some (int2oct (0x80 OR substrateLen))) (\<lambda>h. Some (Inr (h @ substrate)))))"

subsection \<open>\<^verbatim>\<open>ObjectIdentifierEncoder.encodeValue\<close>\<close>

text \<open>The class attribute \<^verbatim>\<open>precomputedValues\<close>, a dictionary from OID prefixes to octets.\<close>

definition precomputedValues :: "(int list \<times> int list) list" where
  "precomputedValues = [([1, 3, 6, 1, 2], [43, 6, 1, 2]), ([1, 3, 6, 1, 4], [43, 6, 1, 4])]"

text \<open>
  The loop \<^verbatim>\<open>while subid > 0: res = (0x80 | (subid & 0x7f),) + res; subid = subid >> 7\<close>.
\<close>

function ObjectIdentifierEncoder_pack :: "int \<Rightarrow> int list \<Rightarrow> int list" where
  "ObjectIdentifierEncoder_pack subid res =
     (if subid > 0
      then ObjectIdentifierEncoder_pack (drop_bit 7 subid) ((0x80 OR (subid AND 0x7f)) # res)
      else res)"
  by pat_completeness auto
termination
  by (relation "measure (\<lambda>(subid, res). nat subid)") (simp_all add: drop_bit_eq_div)

text \<open>The loop \<^verbatim>\<open>for subid in oid[index:]\<close> over the remaining sub-identifiers.\<close>

fun ObjectIdentifierEncoder_subids :: "int list \<Rightarrow> int list \<Rightarrow> error + int list" where
  "ObjectIdentifierEncoder_subids [] octets = Inr octets"
| "ObjectIdentifierEncoder_subids (subid # rest) octets =
     (if subid > -1 \<and> subid < 128
      then ObjectIdentifierEncoder_subids rest (octets @ [subid AND 0x7f])
      else if subid < 0 \<or> subid > 0xFFFFFFFF then Inl (SubIdOverflow subid)
      else ObjectIdentifierEncoder_subids rest
             (octets @ ObjectIdentifierEncoder_pack (drop_bit 7 subid) [subid AND 0x7f]))"

text \<open>
  The argument is the tuple \<^verbatim>\<open>value.asTuple()\<close>; \<^verbatim>\<open>oid[:5]\<close> is \<^term>\<open>take 5 oid\<close>, and
  \<^verbatim>\<open>oid[0]\<close>, \<^verbatim>\<open>oid[1]\<close> are read only after the length check.
\<close>

definition ObjectIdentifierEncoder_encodeValue :: "int list \<Rightarrow> error + (octets \<times> bool)" where
  "ObjectIdentifierEncoder_encodeValue oid =
     (case (case map_of precomputedValues (take 5 oid) of
              Some octets \<Rightarrow> Inr (octets, 5)
            | None \<Rightarrow>
                if length oid < 2 then Inl ShortOID
                else let subid = oid ! 0 * 40;
                         subid = subid + oid ! 1
                     in if subid < 0 \<or> subid > 0xff then Inl InitialSubIdOverflow
                        else Inr ([subid], 2)) of
        Inl e \<Rightarrow> Inl e
      | Inr (octets, index) \<Rightarrow>
          (case ObjectIdentifierEncoder_subids (drop index oid) octets of
             Inl e \<Rightarrow> Inl e
           | Inr octets \<Rightarrow> (case ints2octs octets of Inl e \<Rightarrow> Inl e | Inr s \<Rightarrow> Inr (s, False))))"

subsection \<open>\<^verbatim>\<open>RealEncoder.encodeValue\<close>\<close>

text \<open>
  A REAL value is plus or minus infinity, or a triple (mantissa, base, exponent) of
  integers.
\<close>

datatype real_value = PlusInfinity | MinusInfinity | RealTuple int int int

text \<open>
  Python's \<^verbatim>\<open>'%d' % i\<close> as character codes, and \<^verbatim>\<open>str2octs\<close> of
  \<^verbatim>\<open>pyasn1.compat.octets\<close>, which turns a string into octets.
\<close>

function dec_digits :: "nat \<Rightarrow> int list" where
  "dec_digits n = (if n < 10 then [48 + int n] else dec_digits (n div 10) @ [48 + int (n mod 10)])"
  by pat_completeness auto
termination
  by (relation "measure id") simp_all

definition format_d :: "int \<Rightarrow> int list" where
  "format_d i = (if i < 0 then 45 # dec_digits (nat (- i)) else dec_digits (nat i))"

definition str2octs :: "int list \<Rightarrow> error + octets" where
  "str2octs cs = ints2octs cs"

text \<open>
  The three loops of the base-2 branch. The mantissa is an integer, so the loop
  \<^verbatim>\<open>while int(m) != m\<close> before them does nothing.
  \<^item> \<^verbatim>\<open>while m & 0x1 == 0: m >>= 1; e += 1\<close>
  \<^item> \<^verbatim>\<open>while e: eo = int2oct(e&0xff) + eo; e >>= 8\<close>
  \<^item> \<^verbatim>\<open>while m: po = int2oct(m&0xff) + po; m >>= 8\<close>
\<close>

partial_function (option) RealEncoder_normalize :: "int \<Rightarrow> int \<Rightarrow> (int \<times> int) res" where
  "RealEncoder_normalize m e =
     (if m AND 0x1 = 0 then RealEncoder_normalize (drop_bit 1 m) (e + 1) else Some (Inr (m, e)))"

partial_function (option) RealEncoder_exponent :: "int \<Rightarrow> octets \<Rightarrow> octets res" where
  "RealEncoder_exponent e eo =
     (if e \<noteq> 0
      then rbind (Some (int2oct (e AND 0xff)))
             (\<lambda>b. RealEncoder_exponent (drop_bit 8 e) (b @ eo))
      else Some (Inr eo))"

partial_function (option) RealEncoder_mantissa :: "int \<Rightarrow> octets \<Rightarrow> octets res" where
  "RealEncoder_mantissa m po =
     (if m \<noteq> 0
      then rbind (Some (int2oct (m AND 0xff)))
             (\<lambda>b. RealEncoder_mantissa (drop_bit 8 m) (b @ po))
      else Some (Inr po))"

declare RealEncoder_normalize.simps [code] RealEncoder_exponent.simps [code]
  RealEncoder_mantissa.simps [code]

definition RealEncoder_encodeValue :: "real_value \<Rightarrow> (octets \<times> bool) res" where
  "RealEncoder_encodeValue v =
     (case v of
        PlusInfinity \<Rightarrow> rbind (Some (int2oct 0x40)) (\<lambda>s. Some (Inr (s, False)))
      | MinusInfinity \<Rightarrow> rbind (Some (int2oct 0x41)) (\<lambda>s. Some (Inr (s, False)))
      | RealTuple m b e \<Rightarrow>
          if m = 0 then Some (Inr ([], False))
          else if b = 10 then
            rbind (Some (str2octs ([3] @ format_d m @ [69] @ (if e = 0 then [43] else []) @ format_d e)))
              (\<lambda>s. Some (Inr (s, False)))
          else if b = 2 then
            (let fo = 0x80;
                 (fo, m) = (if m < 0 then (fo OR 0x40, - m) else (fo, m))
             in rbind (RealEncoder_normalize m e) (\<lambda>(m, e).
                rbind (RealEncoder_exponent e []) (\<lambda>eo.
                let n = int (length eo) in
                if n > 0xff then Some (Inl RealExponentOverflow)
                else rbind (if n = 1 then Some (Inr (fo, eo))
                            else if n = 2 then Some (Inr (fo OR 1, eo))
                            else if n = 3 then Some (Inr (fo OR 2, eo))
                            else rbind (Some (int2oct (n div 0xff + 1)))
                                   (\<lambda>h. Some (Inr (fo OR 3, h @ eo)))) (\<lambda>(fo, eo).
                rbind (RealEncoder_mantissa m []) (\<lambda>po.
                rbind (Some (int2oct fo)) (\<lambda>f.
                Some (Inr (f @ eo @ po, False))))))))
          else Some (Inl (ProhibitedRealBase b)))"

subsection \<open>ASN.1 values\<close>

text \<open>
  Modelled from the spec: the value classes of \<^verbatim>\<open>pyasn1.type\<close> (\<^verbatim>\<open>base\<close>, \<^verbatim>\<open>univ\<close>, \<^verbatim>\<open>char\<close>,
  \<^verbatim>\<open>useful\<close>) are not part of the encoder's source. A value carries what the encoder reads
  from it: its tag set (outermost tag last), its base tag set, its optional type id, and
  its content. A SEQUENCE or SET holds its component slots (an absent component is
  \<open>None\<close>), the declared component types and its size constraint; a CHOICE holds the chosen
  component, if any. ANY values hold octets, like OCTET STRING and the character strings.
\<close>

type_synonym size_spec = "(nat \<times> nat) option"

datatype asn1 =
  Asn1 (getTagSet: "tag list") (baseTagSet: "tag list") (typeId: "nat option") (content: content)
and content =
    EndOfOctetsV
  | IntegerV int
  | BitStringV "int list"
  | OctetStringV "int list"
  | NullV
  | ObjectIdentifierV "int list"
  | RealV real_value
  | SequenceV "asn1 option list" "named_type list" size_spec
  | SequenceOfV "asn1 list" size_spec
  | ChoiceV "asn1 option"
and named_type =
    NamedType asn1
  | OptionalNamedType asn1
  | DefaultedNamedType asn1

text \<open>
  Modelled from the spec: \<^verbatim>\<open>value.clone(tagSet=...)\<close> and \<^verbatim>\<open>value.clone(newValue)\<close> return a
  new object of the same type with the tag set, respectively the content, replaced.
\<close>

definition clone_tagSet :: "asn1 \<Rightarrow> tag list \<Rightarrow> asn1" where
  "clone_tagSet v ts = Asn1 ts (baseTagSet v) (typeId v) (content v)"

definition clone_content :: "asn1 \<Rightarrow> content \<Rightarrow> asn1" where
  "clone_content v c = Asn1 (getTagSet v) (baseTagSet v) (typeId v) c"

text \<open>
  Modelled from the spec: \<^verbatim>\<open>eoo.endOfOctets\<close>, the singleton whose tag set is the reserved
  tag (UNIVERSAL, PRIMITIVE, 0).
\<close>

definition endOfOctets :: asn1 where
  "endOfOctets = Asn1 [\<lparr>tagClass = 0x00, tagFormat = 0x00, tagId = 0x00\<rparr>]
                      [\<lparr>tagClass = 0x00, tagFormat = 0x00, tagId = 0x00\<rparr>] None EndOfOctetsV"

text \<open>Modelled from the spec: \<^verbatim>\<open>len(value)\<close>, the number of bits, octets or component slots.\<close>

definition len :: "asn1 \<Rightarrow> nat" where
  "len v = (case content v of
              BitStringV bits \<Rightarrow> length bits
            | OctetStringV octs \<Rightarrow> length octs
            | SequenceV comps types spec \<Rightarrow> length comps
            | SequenceOfV comps spec \<Rightarrow> length comps
            | _ \<Rightarrow> 0)"

text \<open>
  Modelled from the spec: \<^verbatim>\<open>value.getDefaultComponentByPosition(idx)\<close> returns the declared
  default of a DEFAULT component, and \<^verbatim>\<open>None\<close> for any other component.
\<close>

definition getDefaultComponentByPosition :: "asn1 \<Rightarrow> nat \<Rightarrow> asn1 option" where
  "getDefaultComponentByPosition v idx =
     (case content v of
        SequenceV comps types spec \<Rightarrow>
          (if idx < length types
           then (case types ! idx of DefaultedNamedType d \<Rightarrow> Some d | _ \<Rightarrow> None)
           else None)
      | _ \<Rightarrow> None)"

text \<open>
  Modelled from the spec: the hook \<^verbatim>\<open>value.setDefaultComponents()\<close>. It walks the declared
  component types from the last to the first, stores the declared default in every absent
  DEFAULT component (extending the slots where needed), and raises on an absent component
  that is neither OPTIONAL nor DEFAULT. It changes the value it is called on; the model
  returns the changed value, also when the hook raises (the defaults stored before that
  stay). The spec names the hook and says that it is invoked; what it stores is taken from
  its name and from the decoder's rule that an absent DEFAULT component is the declared
  default.
\<close>

fun setDefaultComponents_loop ::
    "nat \<Rightarrow> asn1 option list \<Rightarrow> named_type list
       \<Rightarrow> error \<times> asn1 option list + asn1 option list" where
  "setDefaultComponents_loop 0 comps types = Inr comps"
| "setDefaultComponents_loop (Suc idx) comps types =
     (let absent = (idx \<ge> length comps \<or> comps ! idx = None) in
      case types ! idx of
        DefaultedNamedType d \<Rightarrow>
          if absent
          then setDefaultComponents_loop idx
                 ((comps @ replicate (Suc idx - length comps) None)[idx := Some d]) types
          else setDefaultComponents_loop idx comps types
      | OptionalNamedType t \<Rightarrow> setDefaultComponents_loop idx comps types
      | NamedType t \<Rightarrow>
          if absent then Inl (UninitializedComponent idx, comps)
          else setDefaultComponents_loop idx comps types)"

definition setDefaultComponents :: "asn1 \<Rightarrow> error \<times> asn1 + asn1" where
  "setDefaultComponents v =
     (case content v of
        SequenceV comps types spec \<Rightarrow>
          (case setDefaultComponents_loop (length types) comps types of
             Inl (e, comps') \<Rightarrow> Inl (e, clone_content v (SequenceV comps' types spec))
           | Inr comps' \<Rightarrow> Inr (clone_content v (SequenceV comps' types spec)))
      | _ \<Rightarrow> Inl (TypeError, v))"

text \<open>
  Modelled from the spec: the hook \<^verbatim>\<open>value.verifySizeSpec()\<close> enforces the minimum and the
  maximum number of components; it changes nothing.
\<close>

definition sizeSpec :: "asn1 \<Rightarrow> size_spec" where
  "sizeSpec v = (case content v of
                   SequenceV comps types spec \<Rightarrow> spec
                 | SequenceOfV comps spec \<Rightarrow> spec
                 | _ \<Rightarrow> None)"

definition verifySizeSpec :: "asn1 \<Rightarrow> error + unit" where
  "verifySizeSpec v =
     (case sizeSpec v of
        None \<Rightarrow> Inr ()
      | Some (lo, hi) \<Rightarrow> if lo \<le> len v \<and> len v \<le> hi then Inr () else Inl SizeConstraintViolation)"

subsection \<open>Slices and chunks\<close>

text \<open>Python's \<^verbatim>\<open>xs[i:j]\<close>: negative indices count from the end, all indices are clamped.\<close>

definition py_slice :: "'a list \<Rightarrow> int \<Rightarrow> int \<Rightarrow> 'a list" where
  "py_slice xs i j =
     (let n = int (length xs);
          i' = (if i < 0 then max (i + n) 0 else min i n);
          j' = (if j < 0 then max (j + n) 0 else min j n)
      in take (nat (j' - i')) (drop (nat i') xs))"

text \<open>
  The slices taken by the chunking loops of the string encoders,
  \<^verbatim>\<open>while 1: v = value.clone(value[pos:pos+maxChunkSize]); if not v: break; ...;
  pos = pos + maxChunkSize\<close>: successive slices up to the first empty one. (For BIT STRING
  the slice is \<^verbatim>\<open>value[pos*8:pos*8+maxChunkSize*8]\<close>, that is, start \<open>0\<close> and step
  \<open>maxChunkSize * 8\<close>.) The slicing ends for every step, also a negative one.
\<close>

function chunks :: "'a list \<Rightarrow> int \<Rightarrow> int \<Rightarrow> 'a list list" where
  "chunks xs pos step =
     (let v = py_slice xs pos (pos + step)
      in if v = [] then [] else v # chunks xs (pos + step) step)"
  by pat_completeness auto
termination
proof (relation "measure (\<lambda>(xs, pos, step).
          if 0 < step then nat (int (length xs) - pos) else if 0 \<le> pos then 1 else 0)")
  show "wf (measure (\<lambda>(xs :: 'a list, pos, step).
          if 0 < step then nat (int (length xs) - pos) else if 0 \<le> pos then 1 else 0))" by simp
next
  fix xs :: "'a list" and pos step :: int and x
  assume x: "x = py_slice xs pos (pos + step)" and ne: "x \<noteq> []"
  from ne x have "py_slice xs pos (pos + step) \<noteq> []" by simp
  then have "(0 < step \<and> pos < int (length xs)) \<or> (step < 0 \<and> 0 \<le> pos \<and> pos + step < 0)"
    by (auto simp: py_slice_def Let_def split: if_splits)
  then show "((xs, pos + step, step), (xs, pos, step)) \<in> measure (\<lambda>(xs, pos, step).
          if 0 < step then nat (int (length xs) - pos) else if 0 \<le> pos then 1 else 0)"
    by auto
qed

subsection \<open>The codecs\<close>

text \<open>
  The encoder classes. \<^verbatim>\<open>supportIndefLenMode\<close> is the class attribute: 1 in
  \<^verbatim>\<open>AbstractItemEncoder\<close>, overridden with 0 by the INTEGER, NULL and OBJECT IDENTIFIER
  encoders.
\<close>

datatype codec =
    AbstractItemEncoder
  | EndOfOctetsEncoder
  | ExplicitlyTaggedItemEncoder
  | IntegerEncoder
  | BitStringEncoder
  | OctetStringEncoder
  | NullEncoder
  | ObjectIdentifierEncoder
  | RealEncoder
  | SequenceEncoder
  | SequenceOfEncoder
  | ChoiceEncoder
  | AnyEncoder

fun supportIndefLenMode :: "codec \<Rightarrow> bool" where
  "supportIndefLenMode IntegerEncoder = False"
| "supportIndefLenMode NullEncoder = False"
| "supportIndefLenMode ObjectIdentifierEncoder = False"
| "supportIndefLenMode c = True"

text \<open>
  \<^verbatim>\<open>encodeFun\<close> is the dispatcher, passed to every codec. The encoder changes value objects
  in place (through \<^verbatim>\<open>setDefaultComponents\<close>), so every call that ends gives, with its octets
  or its exception, the value as it is after the call.
\<close>

type_synonym encodeFun = "asn1 \<Rightarrow> bool \<Rightarrow> int \<Rightarrow> (octets, asn1) sres"

text \<open>
  \<^verbatim>\<open>ExplicitlyTaggedItemEncoder.encodeValue\<close>: the value is cloned with its outermost tag
  stripped (\<^verbatim>\<open>getTagSet()[:-1]\<close>), and the clone is encoded; the value itself stays as it is.
\<close>

definition ExplicitlyTaggedItemEncoder_encodeValue ::
    "encodeFun \<Rightarrow> asn1 \<Rightarrow> bool \<Rightarrow> int \<Rightarrow> (octets \<times> bool, asn1) sres" where
  "ExplicitlyTaggedItemEncoder_encodeValue encodeFun value defMode maxChunkSize =
     (let value' = clone_tagSet value (butlast (getTagSet value))
      in rbind (with_state value (forget (encodeFun value' defMode maxChunkSize)))
           (\<lambda>r. Some (Inr ((fst r, True), value))))"

text \<open>
  \<^verbatim>\<open>BitStringEncoder.encodeValue\<close>. The loop \<^verbatim>\<open>while p < l: i, j = divmod(p, 8);
  r[i] = r.get(i,0) | value[p]<<(7-j); p = p + 1\<close> fills the dictionary \<^verbatim>\<open>r\<close>, an association
  list here; the octets are its values in the order of the sorted keys.
\<close>

function BitStringEncoder_loop ::
    "int list \<Rightarrow> nat \<Rightarrow> (nat \<times> int) list \<Rightarrow> nat \<Rightarrow> (nat \<times> int) list \<times> nat" where
  "BitStringEncoder_loop value p r j =
     (if p < length value
      then let i = p div 8; j = p mod 8
           in BitStringEncoder_loop value (p + 1)
                (AList.update i ((case map_of r i of None \<Rightarrow> 0 | Some x \<Rightarrow> x)
                                   OR push_bit (7 - j) (value ! p)) r) j
      else (r, j))"
  by pat_completeness auto
termination
  by (relation "measure (\<lambda>(value, p, r, j). length value - p)") simp_all

text \<open>
  The body of the chunking loops: each chunk, a clone made for the call, is encoded by the
  dispatcher.
\<close>

fun encode_chunks :: "encodeFun \<Rightarrow> asn1 list \<Rightarrow> bool \<Rightarrow> int \<Rightarrow> octets \<Rightarrow> octets res" where
  "encode_chunks encodeFun [] defMode maxChunkSize substrate = Some (Inr substrate)"
| "encode_chunks encodeFun (v # vs) defMode maxChunkSize substrate =
     rbind (forget (encodeFun v defMode maxChunkSize))
       (\<lambda>r. encode_chunks encodeFun vs defMode maxChunkSize (substrate @ r))"

definition BitStringEncoder_encodeValue ::
    "encodeFun \<Rightarrow> asn1 \<Rightarrow> bool \<Rightarrow> int \<Rightarrow> (octets \<times> bool, asn1) sres" where
  "BitStringEncoder_encodeValue encodeFun value defMode maxChunkSize =
     (case content value of
        BitStringV bits \<Rightarrow>
          if maxChunkSize = 0 \<or> int (len value) \<le> maxChunkSize * 8
          then (case BitStringEncoder_loop bits 0 [] 7 of (r, j) \<Rightarrow>
                  let keys = sort (map fst r) in
                  with_state value (
                  rbind (Some (int2oct (7 - int j))) (\<lambda>h.
                  rbind (Some (ints2octs (map (\<lambda>k. case map_of r k of None \<Rightarrow> 0 | Some x \<Rightarrow> x) keys))) (\<lambda>b.
                  Some (Inr (h @ b, False))))))
          else with_state value (
                 rbind (encode_chunks encodeFun
                          (map (\<lambda>c. clone_content value (BitStringV c)) (chunks bits 0 (maxChunkSize * 8)))
                          defMode maxChunkSize [])
                   (\<lambda>substrate. Some (Inr (substrate, True))))
      | _ \<Rightarrow> Some (Inl (TypeError, value)))"

definition OctetStringEncoder_encodeValue ::
    "encodeFun \<Rightarrow> asn1 \<Rightarrow> bool \<Rightarrow> int \<Rightarrow> (octets \<times> bool, asn1) sres" where
  "OctetStringEncoder_encodeValue encodeFun value defMode maxChunkSize =
     (case content value of
        OctetStringV octs \<Rightarrow>
          if maxChunkSize = 0 \<or> int (len value) \<le> maxChunkSize
          then Some (Inr ((octs, False), value))
          else with_state value (
                 rbind (encode_chunks encodeFun
                          (map (\<lambda>c. clone_content value (OctetStringV c)) (chunks octs 0 maxChunkSize))
                          defMode maxChunkSize [])
                   (\<lambda>substrate. Some (Inr (substrate, True))))
      | _ \<Rightarrow> Some (Inl (TypeError, value)))"

text \<open>
  \<^verbatim>\<open>SequenceEncoder.encodeValue\<close>. The loop \<^verbatim>\<open>while idx > 0: idx = idx - 1; ...\<close> runs from
  the last component to the first and puts each encoding in front of the substrate.
  \<^verbatim>\<open>value[idx]\<close> is the slot \<^term>\<open>comps ! idx\<close>; a component is an object of its own that the
  recursive call may change, so its slot holds the component as it is after the call,
  also when the call raises.
  Modelled from the spec: \<^verbatim>\<open>component == value[idx]\<close>, the equality of value objects,
  compares their contents.
\<close>

fun SequenceEncoder_loop ::
    "encodeFun \<Rightarrow> asn1 option list \<Rightarrow> (nat \<Rightarrow> asn1 option) \<Rightarrow> bool \<Rightarrow> int \<Rightarrow> nat \<Rightarrow> octets
       \<Rightarrow> (octets, asn1 option list) sres" where
  "SequenceEncoder_loop encodeFun comps dflt defMode maxChunkSize 0 substrate =
     Some (Inr (substrate, comps))"
| "SequenceEncoder_loop encodeFun comps dflt defMode maxChunkSize (Suc idx) substrate =
     (case comps ! idx of
        None \<Rightarrow> SequenceEncoder_loop encodeFun comps dflt defMode maxChunkSize idx substrate
      | Some c \<Rightarrow>
          if (case dflt idx of None \<Rightarrow> False | Some component \<Rightarrow> content component = content c)
          then SequenceEncoder_loop encodeFun comps dflt defMode maxChunkSize idx substrate
          else rbind (in_state (\<lambda>c'. comps[idx := Some c']) (encodeFun c defMode maxChunkSize))
                 (\<lambda>r. SequenceEncoder_loop encodeFun (snd r) dflt defMode maxChunkSize
                        idx (fst r @ substrate)))"

definition SequenceEncoder_encodeValue ::
    "encodeFun \<Rightarrow> asn1 \<Rightarrow> bool \<Rightarrow> int \<Rightarrow> (octets \<times> bool, asn1) sres" where
  "SequenceEncoder_encodeValue encodeFun value defMode maxChunkSize =
     rbind (Some (setDefaultComponents value)) (\<lambda>value.
     rbind (with_state value (Some (verifySizeSpec value))) (\<lambda>u.
     case content value of
       SequenceV comps types spec \<Rightarrow>
         rbind (in_state (\<lambda>comps'. clone_content value (SequenceV comps' types spec))
                  (SequenceEncoder_loop encodeFun comps (getDefaultComponentByPosition value)
                     defMode maxChunkSize (len value) []))
           (\<lambda>r. Some (Inr ((fst r, True), snd r)))
     | _ \<Rightarrow> Some (Inl (TypeError, value))))"

text \<open>\<^verbatim>\<open>SequenceOfEncoder.encodeValue\<close>, with the same loop over all components.\<close>

fun SequenceOfEncoder_loop ::
    "encodeFun \<Rightarrow> asn1 list \<Rightarrow> bool \<Rightarrow> int \<Rightarrow> nat \<Rightarrow> octets \<Rightarrow> (octets, asn1 list) sres" where
  "SequenceOfEncoder_loop encodeFun comps defMode maxChunkSize 0 substrate =
     Some (Inr (substrate, comps))"
| "SequenceOfEncoder_loop encodeFun comps defMode maxChunkSize (Suc idx) substrate =
     rbind (in_state (\<lambda>c'. comps[idx := c']) (encodeFun (comps ! idx) defMode maxChunkSize))
       (\<lambda>r. SequenceOfEncoder_loop encodeFun (snd r) defMode maxChunkSize idx (fst r @ substrate))"

definition SequenceOfEncoder_encodeValue ::
    "encodeFun \<Rightarrow> asn1 \<Rightarrow> bool \<Rightarrow> int \<Rightarrow> (octets \<times> bool, asn1) sres" where
  "SequenceOfEncoder_encodeValue encodeFun value defMode maxChunkSize =
     (case content value of
        SequenceOfV comps spec \<Rightarrow>
          rbind (with_state value (Some (verifySizeSpec value))) (\<lambda>u.
          rbind (in_state (\<lambda>comps'. clone_content value (SequenceOfV comps' spec))
                   (SequenceOfEncoder_loop encodeFun comps defMode maxChunkSize (len value) []))
            (\<lambda>r. Some (Inr ((fst r, True), snd r))))
      | _ \<Rightarrow> Some (Inl (TypeError, value)))"

text \<open>
  \<^verbatim>\<open>ChoiceEncoder.encodeValue\<close>; \<^verbatim>\<open>value.getComponent()\<close> raises when no alternative is
  chosen.
\<close>

definition ChoiceEncoder_encodeValue ::
    "encodeFun \<Rightarrow> asn1 \<Rightarrow> bool \<Rightarrow> int \<Rightarrow> (octets \<times> bool, asn1) sres" where
  "ChoiceEncoder_encodeValue encodeFun value defMode maxChunkSize =
     (case content value of
        ChoiceV None \<Rightarrow> Some (Inl (ComponentNotChosen, value))
      | ChoiceV (Some c) \<Rightarrow>
          rbind (in_state (\<lambda>c'. clone_content value (ChoiceV (Some c')))
                   (encodeFun c defMode maxChunkSize))
            (\<lambda>r. Some (Inr ((fst r, True), snd r)))
      | _ \<Rightarrow> Some (Inl (TypeError, value)))"

text \<open>\<^verbatim>\<open>AnyEncoder.encodeValue\<close>: the octets as they are, constructed when \<^verbatim>\<open>defMode == 0\<close>.\<close>

definition AnyEncoder_encodeValue ::
    "encodeFun \<Rightarrow> asn1 \<Rightarrow> bool \<Rightarrow> int \<Rightarrow> (octets \<times> bool, asn1) sres" where
  "AnyEncoder_encodeValue encodeFun value defMode maxChunkSize =
     (case content value of
        OctetStringV octs \<Rightarrow> Some (Inr ((octs, defMode = False), value))
      | _ \<Rightarrow> Some (Inl (TypeError, value)))"

text \<open>
  The method \<^verbatim>\<open>encodeValue\<close> of each class. A codec applied to a value of a class it
  cannot read raises; the result is the content octets, the is-constructed flag and the
  value after the call.
\<close>

definition encodeValue ::
    "codec \<Rightarrow> encodeFun \<Rightarrow> asn1 \<Rightarrow> bool \<Rightarrow> int \<Rightarrow> (octets \<times> bool, asn1) sres" where
  "encodeValue self encodeFun value defMode maxChunkSize =
     (case self of
        AbstractItemEncoder \<Rightarrow> Some (Inl (NotImplemented, value))
      | EndOfOctetsEncoder \<Rightarrow> Some (Inr (([], False), value))
      | ExplicitlyTaggedItemEncoder \<Rightarrow>
          ExplicitlyTaggedItemEncoder_encodeValue encodeFun value defMode maxChunkSize
      | IntegerEncoder \<Rightarrow>
          (case content value of
             IntegerV n \<Rightarrow> with_state value (Some (IntegerEncoder_encodeValue n))
           | _ \<Rightarrow> Some (Inl (TypeError, value)))
      | BitStringEncoder \<Rightarrow> BitStringEncoder_encodeValue encodeFun value defMode maxChunkSize
      | OctetStringEncoder \<Rightarrow> OctetStringEncoder_encodeValue encodeFun value defMode maxChunkSize
      | NullEncoder \<Rightarrow> Some (Inr (([], False), value))
      | ObjectIdentifierEncoder \<Rightarrow>
          (case content value of
             ObjectIdentifierV oid \<Rightarrow> with_state value (Some (ObjectIdentifierEncoder_encodeValue oid))
           | _ \<Rightarrow> Some (Inl (TypeError, value)))
      | RealEncoder \<Rightarrow>
          (case content value of
             RealV x \<Rightarrow> with_state value (RealEncoder_encodeValue x)
           | _ \<Rightarrow> Some (Inl (TypeError, value)))
      | SequenceEncoder \<Rightarrow> SequenceEncoder_encodeValue encodeFun value defMode maxChunkSize
      | SequenceOfEncoder \<Rightarrow> SequenceOfEncoder_encodeValue encodeFun value defMode maxChunkSize
      | ChoiceEncoder \<Rightarrow> ChoiceEncoder_encodeValue encodeFun value defMode maxChunkSize
      | AnyEncoder \<Rightarrow> AnyEncoder_encodeValue encodeFun value defMode maxChunkSize)"

subsection \<open>\<^verbatim>\<open>AbstractItemEncoder._encodeEndOfOctets\<close> and \<^verbatim>\<open>AbstractItemEncoder.encode\<close>\<close>

definition AbstractItemEncoder_encodeEndOfOctets :: "codec \<Rightarrow> encodeFun \<Rightarrow> bool \<Rightarrow> octets res" where
  "AbstractItemEncoder_encodeEndOfOctets self encodeFun defMode =
     (if defMode \<or> \<not> supportIndefLenMode self then Some (Inr [])
      else rbind (forget (encodeFun endOfOctets defMode 0)) (\<lambda>r. Some (Inr r)))"

definition AbstractItemEncoder_encode ::
    "codec \<Rightarrow> encodeFun \<Rightarrow> asn1 \<Rightarrow> bool \<Rightarrow> int \<Rightarrow> (octets, asn1) sres" where
  "AbstractItemEncoder_encode self encodeFun value defMode maxChunkSize =
     rbind (encodeValue self encodeFun value defMode maxChunkSize) (\<lambda>r.
       let substrate = fst (fst r); isConstructed = snd (fst r); value = snd r;
           tagSet = getTagSet value
       in if tagSet \<noteq> []
          then let defMode = (if \<not> isConstructed then True else defMode)
               in with_state value (
                  rbind (encodeTag (last tagSet) isConstructed) (\<lambda>t.
                  rbind (encodeLength (supportIndefLenMode self) (int (length substrate)) defMode) (\<lambda>l.
                  rbind (AbstractItemEncoder_encodeEndOfOctets self encodeFun defMode) (\<lambda>eoo.
                  Some (Inr (t @ l @ substrate @ eoo))))))
          else Some (Inr (substrate, value)))"

subsection \<open>\<^verbatim>\<open>Encoder.__call__\<close>\<close>

text \<open>
  The selection of the concrete codec, the first part of \<^verbatim>\<open>Encoder.__call__\<close>; the two
  dictionaries of the \<^verbatim>\<open>Encoder\<close> object are maps.
\<close>

definition concreteEncoder ::
    "(tag list \<Rightarrow> codec option) \<Rightarrow> (nat \<Rightarrow> codec option) \<Rightarrow> asn1 \<Rightarrow> error + codec" where
  "concreteEncoder tagMap typeMap value =
     (let tagSet = getTagSet value
      in if length tagSet > 1 then Inr ExplicitlyTaggedItemEncoder
         else case (case typeId value of None \<Rightarrow> None | Some t \<Rightarrow> typeMap t) of
                Some c \<Rightarrow> Inr c
              | None \<Rightarrow>
                  (case tagMap tagSet of
                     Some c \<Rightarrow> Inr c
                   | None \<Rightarrow>
                       (case tagMap (baseTagSet value) of
                          Some c \<Rightarrow> Inr c
                        | None \<Rightarrow> Inl NoEncoder)))"

text \<open>
  The codecs call the dispatcher and the dispatcher calls the codecs. The functions above
  are monotone in the dispatcher they are given, which is what the recursive definition
  of the dispatcher needs.
\<close>

lemma encode_chunks_mono [partial_function_mono]:
  assumes "\<And>v d m. mono_option (\<lambda>f. F f v d m)"
  shows "mono_option (\<lambda>f. encode_chunks (F f) vs defMode maxChunkSize substrate)"
  by (induction vs arbitrary: substrate) (auto intro!: partial_function_mono assms)

lemma SequenceEncoder_loop_mono [partial_function_mono]:
  assumes "\<And>v d m. mono_option (\<lambda>f. F f v d m)"
  shows "mono_option (\<lambda>f. SequenceEncoder_loop (F f) comps dflt defMode maxChunkSize idx substrate)"
proof (induction idx arbitrary: comps substrate)
  case 0
  show ?case by (simp add: option.const_mono)
next
  case (Suc idx)
  show ?case by (cases "comps ! idx") (auto intro!: partial_function_mono assms Suc)
qed

lemma SequenceOfEncoder_loop_mono [partial_function_mono]:
  assumes "\<And>v d m. mono_option (\<lambda>f. F f v d m)"
  shows "mono_option (\<lambda>f. SequenceOfEncoder_loop (F f) comps defMode maxChunkSize idx substrate)"
  by (induction idx arbitrary: comps substrate) (auto intro!: partial_function_mono assms)

lemma ExplicitlyTaggedItemEncoder_encodeValue_mono:
  assumes "\<And>v d m. mono_option (\<lambda>f. F f v d m)"
  shows "mono_option (\<lambda>f. ExplicitlyTaggedItemEncoder_encodeValue (F f) value defMode maxChunkSize)"
  unfolding ExplicitlyTaggedItemEncoder_encodeValue_def Let_def
  by (intro partial_function_mono assms)

lemma BitStringEncoder_encodeValue_mono:
  assumes "\<And>v d m. mono_option (\<lambda>f. F f v d m)"
  shows "mono_option (\<lambda>f. BitStringEncoder_encodeValue (F f) value defMode maxChunkSize)"
  unfolding BitStringEncoder_encodeValue_def
  by (cases "content value") (auto intro!: partial_function_mono assms)

lemma OctetStringEncoder_encodeValue_mono:
  assumes "\<And>v d m. mono_option (\<lambda>f. F f v d m)"
  shows "mono_option (\<lambda>f. OctetStringEncoder_encodeValue (F f) value defMode maxChunkSize)"
  unfolding OctetStringEncoder_encodeValue_def
  by (cases "content value") (auto intro!: partial_function_mono assms)

lemma SequenceEncoder_encodeValue_mono:
  assumes "\<And>v d m. mono_option (\<lambda>f. F f v d m)"
  shows "mono_option (\<lambda>f. SequenceEncoder_encodeValue (F f) value defMode maxChunkSize)"
  unfolding SequenceEncoder_encodeValue_def
proof (intro partial_function_mono)
  fix v :: asn1 and u :: "unit \<times> asn1"
  show "mono_option (\<lambda>f. case content v of
          SequenceV comps types spec \<Rightarrow>
            rbind (in_state (\<lambda>comps'. clone_content v (SequenceV comps' types spec))
                     (SequenceEncoder_loop (F f) comps (getDefaultComponentByPosition v)
                        defMode maxChunkSize (len v) []))
              (\<lambda>r. Some (Inr ((fst r, True), snd r)))
        | _ \<Rightarrow> Some (Inl (TypeError, v)))"
    by (cases "content v") (auto intro!: partial_function_mono assms)
qed

lemma SequenceOfEncoder_encodeValue_mono:
  assumes "\<And>v d m. mono_option (\<lambda>f. F f v d m)"
  shows "mono_option (\<lambda>f. SequenceOfEncoder_encodeValue (F f) value defMode maxChunkSize)"
  unfolding SequenceOfEncoder_encodeValue_def
  by (cases "content value") (auto intro!: partial_function_mono assms)

lemma ChoiceEncoder_encodeValue_mono:
  assumes "\<And>v d m. mono_option (\<lambda>f. F f v d m)"
  shows "mono_option (\<lambda>f. ChoiceEncoder_encodeValue (F f) value defMode maxChunkSize)"
  unfolding ChoiceEncoder_encodeValue_def
proof (cases "content value")
  case (ChoiceV c)
  then show "mono_option (\<lambda>f. case content value of
          ChoiceV None \<Rightarrow> Some (Inl (ComponentNotChosen, value))
        | ChoiceV (Some c) \<Rightarrow>
            rbind (in_state (\<lambda>c'. clone_content value (ChoiceV (Some c')))
                     (F f c defMode maxChunkSize))
              (\<lambda>r. Some (Inr ((fst r, True), snd r)))
        | _ \<Rightarrow> Some (Inl (TypeError, value)))"
    by (cases c) (auto intro!: partial_function_mono assms)
qed (auto intro!: partial_function_mono)

lemma encodeValue_mono [partial_function_mono]:
  assumes "\<And>v d m. mono_option (\<lambda>f. F f v d m)"
  shows "mono_option (\<lambda>f. encodeValue self (F f) value defMode maxChunkSize)"
  unfolding encodeValue_def AnyEncoder_encodeValue_def
  by (cases self)
     (auto intro!: partial_function_mono ExplicitlyTaggedItemEncoder_encodeValue_mono
        BitStringEncoder_encodeValue_mono OctetStringEncoder_encodeValue_mono
        SequenceEncoder_encodeValue_mono SequenceOfEncoder_encodeValue_mono
        ChoiceEncoder_encodeValue_mono assms)

lemma AbstractItemEncoder_encodeEndOfOctets_mono [partial_function_mono]:
  assumes "\<And>v d m. mono_option (\<lambda>f. F f v d m)"
  shows "mono_option (\<lambda>f. AbstractItemEncoder_encodeEndOfOctets self (F f) defMode)"
  unfolding AbstractItemEncoder_encodeEndOfOctets_def by (auto intro!: partial_function_mono assms)

lemma AbstractItemEncoder_encode_mono [partial_function_mono]:
  assumes "\<And>v d m. mono_option (\<lambda>f. F f v d m)"
  shows "mono_option (\<lambda>f. AbstractItemEncoder_encode self (F f) value defMode maxChunkSize)"
  unfolding AbstractItemEncoder_encode_def Let_def by (auto intro!: partial_function_mono assms)

text \<open>
  \<^verbatim>\<open>Encoder.__call__\<close>. The recursion has no evident bound, and \<^verbatim>\<open>RealEncoder\<close> may not
  return, so the dispatcher is a partial function: \<open>None\<close> is a call that does not return.
\<close>

partial_function (option) Encoder_call ::
    "(tag list \<Rightarrow> codec option) \<Rightarrow> (nat \<Rightarrow> codec option) \<Rightarrow> asn1 \<Rightarrow> bool \<Rightarrow> int
       \<Rightarrow> (octets, asn1) sres" where
  "Encoder_call tagMap typeMap value defMode maxChunkSize =
     rbind (with_state value (Some (concreteEncoder tagMap typeMap value))) (\<lambda>self.
       AbstractItemEncoder_encode (fst self) (Encoder_call tagMap typeMap) value defMode maxChunkSize)"

declare Encoder_call.simps [code]

text \<open>
  Modelled from the spec: the keys of the module's \<^verbatim>\<open>tagMap\<close> and \<^verbatim>\<open>typeMap\<close> are the
  \<^verbatim>\<open>tagSet\<close> and \<^verbatim>\<open>typeId\<close> attributes of the classes of \<^verbatim>\<open>univ\<close>, \<^verbatim>\<open>char\<close> and \<^verbatim>\<open>useful\<close>:
  the universal tags of X.690 (CHOICE has the empty tag set), and the type ids 1 to 6 of
  SEQUENCE OF, SET OF, SEQUENCE, SET, CHOICE and ANY.
\<close>

definition universal :: "int \<Rightarrow> int \<Rightarrow> tag list" where
  "universal form n = [\<lparr>tagClass = 0x00, tagFormat = form, tagId = n\<rparr>]"

definition tagMap :: "tag list \<Rightarrow> codec option" where
  "tagMap = map_of [
     (getTagSet endOfOctets, EndOfOctetsEncoder),
     (universal 0x00 1, IntegerEncoder),
     (universal 0x00 2, IntegerEncoder),
     (universal 0x00 3, BitStringEncoder),
     (universal 0x00 4, OctetStringEncoder),
     (universal 0x00 5, NullEncoder),
     (universal 0x00 6, ObjectIdentifierEncoder),
     (universal 0x00 10, IntegerEncoder),
     (universal 0x00 9, RealEncoder),
     (universal 0x20 16, SequenceOfEncoder),
     (universal 0x20 17, SequenceOfEncoder),
     ([], ChoiceEncoder),
     (universal 0x00 12, OctetStringEncoder),
     (universal 0x00 18, OctetStringEncoder),
     (universal 0x00 19, OctetStringEncoder),
     (universal 0x00 20, OctetStringEncoder),
     (universal 0x00 21, OctetStringEncoder),
     (universal 0x00 22, OctetStringEncoder),
     (universal 0x00 25, OctetStringEncoder),
     (universal 0x00 26, OctetStringEncoder),
     (universal 0x00 27, OctetStringEncoder),
     (universal 0x00 28, OctetStringEncoder),
     (universal 0x00 30, OctetStringEncoder),
     (universal 0x00 24, OctetStringEncoder),
     (universal 0x00 23, OctetStringEncoder)]"

definition typeMap :: "nat \<Rightarrow> codec option" where
  "typeMap = map_of [
     (4, SequenceEncoder),
     (2, SequenceOfEncoder),
     (3, SequenceEncoder),
     (1, SequenceOfEncoder),
     (5, ChoiceEncoder),
     (6, AnyEncoder)]"

text \<open>The module's \<^verbatim>\<open>encode = Encoder(tagMap, typeMap)\<close>.\<close>

definition encode :: "asn1 \<Rightarrow> bool \<Rightarrow> int \<Rightarrow> (octets, asn1) sres" where
  "encode = Encoder_call tagMap typeMap"


text \<open>Modelled from the spec: untagged values of some classes of \<^verbatim>\<open>univ\<close>.\<close>

definition OctetString :: "int list \<Rightarrow> asn1" where
  "OctetString octs = Asn1 (universal 0 4) (universal 0 4) None (OctetStringV octs)"

definition Integer :: "int \<Rightarrow> asn1" where
  "Integer n = Asn1 (universal 0 2) (universal 0 2) None (IntegerV n)"

definition Null :: "asn1" where
  "Null = Asn1 (universal 0 5) (universal 0 5) None NullV"

definition BitString :: "int list \<Rightarrow> asn1" where
  "BitString bits = Asn1 (universal 0 3) (universal 0 3) None (BitStringV bits)"

definition Sequence :: "asn1 option list \<Rightarrow> named_type list \<Rightarrow> asn1" where
  "Sequence cs ts = Asn1 (universal 0x20 16) (universal 0x20 16) (Some 3) (SequenceV cs ts None)"

subsection \<open>Notions of the specification\<close>

text \<open>An octet sequence: every element is in \<open>0..255\<close>.\<close>

definition is_octets :: "int list \<Rightarrow> bool" where
  "is_octets octs = (\<forall>x \<in> set octs. 0 \<le> x \<and> x < 256)"

text \<open>The unsigned and the two's-complement value of a big-endian octet sequence.\<close>

definition be_unsigned :: "int list \<Rightarrow> int" where
  "be_unsigned octs = foldl (\<lambda>acc x. acc * 256 + x) 0 octs"

definition twos_complement :: "int list \<Rightarrow> int" where
  "twos_complement octs =
     (if octs \<noteq> [] \<and> 128 \<le> hd octs then be_unsigned octs - 256 ^ length octs
      else be_unsigned octs)"

text \<open>
  A redundant leading octet: \<open>0x00\<close> before an octet whose bit 7 is 0, or \<open>0xFF\<close> before
  an octet whose bit 7 is 1.
\<close>

fun redundant_lead :: "int list \<Rightarrow> bool" where
  "redundant_lead (a # b # rest) = ((a = 0 \<and> b < 128) \<or> (a = 255 \<and> 128 \<le> b))"
| "redundant_lead octs = False"

text \<open>
  A well-formed tag: the class is one of UNIVERSAL, APPLICATION, CONTEXT, PRIVATE, the
  form is PRIMITIVE or CONSTRUCTED, the number is not negative.
\<close>

definition wf_tag :: "tag \<Rightarrow> bool" where
  "wf_tag t = (tagClass t \<in> {0x00, 0x40, 0x80, 0xC0} \<and> tagFormat t \<in> {0x00, 0x20} \<and> 0 \<le> tagId t)"

text \<open>The value of a big-endian sequence of base-128 digits.\<close>

definition be128 :: "int list \<Rightarrow> int" where
  "be128 ds = foldl (\<lambda>acc d. acc * 128 + d) 0 ds"

text \<open>
  The base-128 big-endian digits of a number, and the octets of a sub-identifier: its
  digits, with the high bit set on all but the last.
\<close>

function base128 :: "int \<Rightarrow> int list" where
  "base128 n = (if n < 128 then [n] else base128 (n div 128) @ [n mod 128])"
  by pat_completeness auto
termination
  by (relation "measure nat") simp_all

definition subid_octets :: "int \<Rightarrow> int list" where
  "subid_octets n = map (\<lambda>d. 0x80 + d) (butlast (base128 n)) @ [last (base128 n)]"

text \<open>The OIDs the specification rejects.\<close>

definition oid_rejected :: "int list \<Rightarrow> bool" where
  "oid_rejected oid =
     (length oid < 2
      \<or> \<not> (0 \<le> 40 * oid ! 0 + oid ! 1 \<and> 40 * oid ! 0 + oid ! 1 \<le> 255)
      \<or> (\<exists>s \<in> set (drop 2 oid). s < 0 \<or> s > 2 ^ 32 - 1))"

text \<open>The components among the first \<open>n\<close> positions that are present and differ from their
  declared default, in positional order.\<close>

definition emitted_upto :: "asn1 option list \<Rightarrow> (nat \<Rightarrow> asn1 option) \<Rightarrow> nat \<Rightarrow> asn1 list" where
  "emitted_upto comps dflt n =
     concat (map (\<lambda>i. case comps ! i of
                          None \<Rightarrow> []
                        | Some c \<Rightarrow> (case dflt i of
                                       None \<Rightarrow> [c]
                                     | Some d \<Rightarrow> if content d = content c then [] else [c]))
                 [0..<n])"

text \<open>The components of a SEQUENCE/SET value that the specification says are encoded.\<close>

definition emitted_components :: "asn1 \<Rightarrow> asn1 list" where
  "emitted_components v =
     (case content v of
        SequenceV comps types spec \<Rightarrow> emitted_upto comps (getDefaultComponentByPosition v) (length comps)
      | _ \<Rightarrow> [])"

text \<open>A SEQUENCE with an absent optional component, a component equal to its default and an
  absent defaulted component; and the same value after its defaults have been filled in.\<close>

definition example_sequence :: asn1 where
  "example_sequence =
     Sequence [Some Null, None, Some (Integer 33), Some (Integer 1), None]
       [NamedType Null, OptionalNamedType (OctetString []), DefaultedNamedType (Integer 33),
        NamedType (Integer 0), DefaultedNamedType (Integer 7)]"

definition example_sequence_filled :: asn1 where
  "example_sequence_filled =
     Sequence [Some Null, None, Some (Integer 33), Some (Integer 1), Some (Integer 7)]
       [NamedType Null, OptionalNamedType (OctetString []), DefaultedNamedType (Integer 33),
        NamedType (Integer 0), DefaultedNamedType (Integer 7)]"


text \<open>The value as it is when a computation has ended, by returning or by raising.\<close>

definition value_after :: "error \<times> 's + 'a \<times> 's \<Rightarrow> 's" where
  "value_after r = (case r of Inl (e, s) \<Rightarrow> s | Inr (x, s) \<Rightarrow> s)"








section \<open>Properties\<close>

subsection \<open>Outcomes\<close>

lemma with_state_simps [simp]:
  "with_state s None = None"
  "with_state s (Some (Inl e)) = Some (Inl (e, s))"
  "with_state s (Some (Inr x)) = Some (Inr (x, s))"
  by (simp_all add: with_state_def)

lemma in_state_simps [simp]:
  "in_state f None = None"
  "in_state f (Some (Inl (e, s))) = Some (Inl (e, f s))"
  "in_state f (Some (Inr (x, s))) = Some (Inr (x, f s))"
  by (simp_all add: in_state_def)

lemma forget_simps [simp]:
  "forget None = None"
  "forget (Some (Inl (e, s))) = Some (Inl e)"
  "forget (Some (Inr (x, s))) = Some (Inr x)"
  by (simp_all add: forget_def)

lemma with_state_Some_Inr:
  "(with_state s m = Some (Inr (x, s'))) = (m = Some (Inr x) \<and> s' = s)"
proof (cases m)
  case (Some r)
  then show ?thesis by (cases r) auto
qed simp

lemma in_state_Some_Inr:
  "(in_state f m = Some (Inr (x, t))) = (\<exists>s. m = Some (Inr (x, s)) \<and> t = f s)"
proof (cases m)
  case (Some r)
  show ?thesis
  proof (cases r)
    case (Inl a)
    with Some show ?thesis by (cases a) simp
  next
    case (Inr b)
    with Some show ?thesis by (cases b) auto
  qed
qed simp

lemma forget_Some_Inr:
  "(forget m = Some (Inr x)) = (\<exists>s. m = Some (Inr (x, s)))"
proof (cases m)
  case (Some r)
  show ?thesis
  proof (cases r)
    case (Inl a)
    with Some show ?thesis by (cases a) simp
  next
    case (Inr b)
    with Some show ?thesis by (cases b) auto
  qed
qed simp

subsection \<open>Bit arithmetic on octets\<close>

lemma and_255: "(v::int) AND 255 = v mod 256"
  using take_bit_eq_mask[of 8 v] by (simp add: take_bit_eq_mod mask_eq_exp_minus_1)

lemma and_127: "(n::int) AND 127 = n mod 128"
  using take_bit_eq_mask[of 7 n] by (simp add: take_bit_eq_mod mask_eq_exp_minus_1)

lemma and_128_iff: "0 \<le> b \<Longrightarrow> b < 256 \<Longrightarrow> ((b::int) AND 128 = 0) = (b < 128)"
proof -
  assume a: "0 \<le> b" "b < 256"
  have "(b AND 2 ^ 7 = 0) = (\<not> bit b 7)" by (rule and_exp_eq_0_iff_not_bit)
  also have "\<dots> = (b < 128)" using a by (simp add: bit_iff_odd) presburger
  finally show ?thesis by simp
qed

lemma and_31_self: "0 \<le> (t::int) \<Longrightarrow> t < 32 \<Longrightarrow> t AND 31 = t"
  using take_bit_eq_mask[of 5 t] by (simp add: take_bit_int_eq_self mask_eq_exp_minus_1)

lemma and_low5_disjoint:
  assumes "0 \<le> (t::int)" "t < 32" "31 AND m = 0"
  shows "t AND m = 0"
proof -
  have "t AND m = (t AND 31) AND m" using assms by (simp add: and_31_self)
  also have "\<dots> = t AND (31 AND m)" by (simp add: and.assoc)
  finally show ?thesis using assms by simp
qed

lemma or_low5_add:
  assumes "0 \<le> (t::int)" "t < 32" "v AND 31 = 0"
  shows "v OR t = v + t"
proof -
  have "31 AND v = 0" using assms(3) by (simp only: and.commute)
  with assms(1,2) have "t AND v = 0" by (rule and_low5_disjoint)
  then have "v AND t = 0" by (simp add: and.commute)
  then show ?thesis by (rule disjunctive_add_eq_or[symmetric])
qed

lemma or_128_add: "0 \<le> (d::int) \<Longrightarrow> d < 128 \<Longrightarrow> 128 OR d = 128 + d"
proof -
  assume d: "0 \<le> d" "d < 128"
  then have "d AND 127 = d" by (simp add: and_127)
  then have "128 AND d = 128 AND (127 AND d)" by (simp add: and.commute)
  also have "\<dots> = (128 AND 127) AND d" by (simp only: and.assoc)
  finally have "128 AND d = 0" by simp
  then show ?thesis by (rule disjunctive_add_eq_or[symmetric])
qed

lemma scale_bounds:
  fixes a P :: int
  assumes "lo \<le> a" "a \<le> hi" "0 \<le> P"
  shows "lo * P \<le> a * P \<and> a * P \<le> hi * P"
  using assms by (simp add: mult_right_mono)

subsection \<open>Big-endian values\<close>

lemma be_unsigned_snoc: "be_unsigned (xs @ [x]) = be_unsigned xs * 256 + x"
  by (simp add: be_unsigned_def)

lemma be_unsigned_Cons: "be_unsigned (x # xs) = x * 256 ^ length xs + be_unsigned xs"
proof (induction xs arbitrary: x rule: rev_induct)
  case Nil show ?case by (simp add: be_unsigned_def)
next
  case (snoc y ys)
  have "be_unsigned (x # ys @ [y]) = be_unsigned ((x # ys) @ [y])" by simp
  also have "\<dots> = be_unsigned (x # ys) * 256 + y" by (rule be_unsigned_snoc)
  finally show ?case using snoc[of x] by (simp add: be_unsigned_snoc algebra_simps)
qed

lemma be_unsigned_bounds:
  "is_octets xs \<Longrightarrow> 0 \<le> be_unsigned xs \<and> be_unsigned xs < 256 ^ length xs"
proof (induction xs rule: rev_induct)
  case Nil show ?case by (simp add: be_unsigned_def)
next
  case (snoc y ys)
  then have ih: "0 \<le> be_unsigned ys" "be_unsigned ys < 256 ^ length ys" and y: "0 \<le> y" "y < 256"
    by (auto simp: is_octets_def)
  from ih(2) have "be_unsigned ys + 1 \<le> 256 ^ length ys" by simp
  then have "(be_unsigned ys + 1) * 256 \<le> 256 ^ length ys * 256" by (rule mult_right_mono) simp
  with ih y show ?case by (simp add: be_unsigned_snoc algebra_simps)
qed

lemma be128_snoc: "be128 (ds @ [d]) = be128 ds * 128 + d"
  by (simp add: be128_def)

lemma twos_complement_Cons:
  "twos_complement (a # rest) =
     (if 128 \<le> a then a * 256 ^ length rest + be_unsigned rest - 256 * 256 ^ length rest
      else a * 256 ^ length rest + be_unsigned rest)"
  by (simp add: twos_complement_def be_unsigned_Cons)

text \<open>An octet sequence of length \<open>m\<close> holds the two's-complement values of \<open>8 * m\<close> bits.\<close>

lemma twos_complement_range:
  assumes "is_octets xs" "xs \<noteq> []"
  shows "- (128 * 256 ^ (length xs - 1)) \<le> twos_complement xs
       \<and> twos_complement xs < 128 * 256 ^ (length xs - 1)"
proof -
  from assms obtain a rest where xs: "xs = a # rest" by (cases xs) auto
  from assms xs have a: "0 \<le> a" "a \<le> 255" and r: "is_octets rest" by (auto simp: is_octets_def)
  define P :: int where "P = 256 ^ length rest"
  define u where "u = be_unsigned rest"
  define Q where "Q = a * P"
  from be_unsigned_bounds[OF r] have b: "0 \<le> u" "u < P" by (auto simp: P_def u_def)
  have P: "0 \<le> P" by (simp add: P_def)
  have tc: "twos_complement xs = (if 128 \<le> a then Q + u - 256 * P else Q + u)"
    unfolding xs twos_complement_Cons P_def u_def Q_def by simp
  have l: "(256::int) ^ (length xs - 1) = P" by (simp add: xs P_def)
  show ?thesis
  proof (cases "128 \<le> a")
    case True
    from scale_bounds[OF True a(2) P] have "128 * P \<le> Q" "Q \<le> 255 * P" by (auto simp: Q_def)
    with True tc b show ?thesis unfolding l by simp
  next
    case False
    then have "a \<le> 127" by simp
    from scale_bounds[OF a(1) this P] have "0 \<le> Q" "Q \<le> 127 * P" by (auto simp: Q_def)
    with False tc b show ?thesis unfolding l by simp
  qed
qed

text \<open>Without a redundant leading octet, the value does not fit in one octet less.\<close>

lemma not_redundant_outside:
  assumes v: "is_octets xs" and len: "2 \<le> length xs" and nr: "\<not> redundant_lead xs"
  shows "twos_complement xs < - (128 * 256 ^ (length xs - 2))
       \<or> 128 * 256 ^ (length xs - 2) \<le> twos_complement xs"
proof -
  from len obtain a b rest where xs: "xs = a # b # rest"
    by (cases xs; cases "tl xs") auto
  from v xs have a: "0 \<le> a" "a \<le> 255" and b: "0 \<le> b" "b \<le> 255" and r: "is_octets rest"
    by (auto simp: is_octets_def)
  define P :: int where "P = 256 ^ length rest"
  define u where "u = be_unsigned rest"
  define Q where "Q = a * P"
  define R where "R = b * P"
  from be_unsigned_bounds[OF r] have u: "0 \<le> u" "u < P" by (auto simp: P_def u_def)
  have P: "0 \<le> P" by (simp add: P_def)
  from scale_bounds[OF b P] have R: "0 \<le> R" "R \<le> 255 * P" by (auto simp: R_def)
  have tc: "twos_complement xs
      = (if 128 \<le> a then 256 * Q + R + u - 65536 * P else 256 * Q + R + u)"
    unfolding xs twos_complement_Cons be_unsigned_Cons P_def u_def Q_def R_def by simp
  have l: "(256::int) ^ (length xs - 2) = P" by (simp add: xs P_def)
  consider (z) "a = 0" | (pos) "1 \<le> a" "a \<le> 127" | (neg) "128 \<le> a" "a \<le> 254" | (ff) "a = 255"
    using a by linarith
  then show ?thesis
  proof cases
    case z
    with nr xs have "128 \<le> b" by simp
    from scale_bounds[OF this b(2) P] have "128 * P \<le> R" by (simp add: R_def)
    moreover have "Q = 0" using z by (simp add: Q_def)
    ultimately show ?thesis using z tc u unfolding l by simp
  next
    case pos
    from scale_bounds[OF pos P] have "1 * P \<le> Q" by (simp add: Q_def)
    with pos tc u R show ?thesis unfolding l by simp
  next
    case neg
    from scale_bounds[OF neg P] have "Q \<le> 254 * P" by (simp add: Q_def)
    with neg tc u R show ?thesis unfolding l by simp
  next
    case ff
    with nr xs have "b \<le> 127" by auto
    from scale_bounds[OF b(1) this P] have "R \<le> 127 * P" by (simp add: R_def)
    moreover have "Q = 255 * P" using ff by (simp add: Q_def)
    ultimately show ?thesis using ff tc u unfolding l by simp
  qed
qed

lemma not_redundant_shortest:
  assumes v: "is_octets xs" and ne: "xs \<noteq> []" and nr: "\<not> redundant_lead xs"
      and v': "is_octets ys" and ne': "ys \<noteq> []" and eq: "twos_complement ys = twos_complement xs"
  shows "length xs \<le> length ys"
proof (rule ccontr)
  assume "\<not> length xs \<le> length ys"
  then have lt: "length ys < length xs" by simp
  with ne' have len: "2 \<le> length xs" by (cases ys) auto
  from lt len have le: "length ys - 1 \<le> length xs - 2" by simp
  have mono: "(256::int) ^ (length ys - 1) \<le> 256 ^ (length xs - 2)"
    using le by (intro power_increasing) simp_all
  from twos_complement_range[OF v' ne'] not_redundant_outside[OF v len nr] eq mono
  show False by linarith
qed

subsection \<open>INTEGER content octets\<close>

lemma IntegerEncoder_loop_inv:
  "\<exists>pre. IntegerEncoder_loop v acc = ((if v < 0 then -1 else 0), pre @ acc) \<and> pre \<noteq> [] \<and> is_octets pre
     \<and> hd pre = (if v < 0 then 255 else 0)
     \<and> be_unsigned pre = (if v < 0 then v + 256 ^ length pre else v)"
proof (induction v acc rule: IntegerEncoder_loop.induct)
  case (1 v octets)
  show ?case
  proof (cases "v = 0 \<or> v = -1")
    case True
    then show ?thesis
      by (auto simp: is_octets_def be_unsigned_def intro!: exI[of _ "[v AND 255]"])
  next
    case False
    from 1[OF refl False] obtain pre where
      p: "IntegerEncoder_loop (drop_bit 8 v) ((v AND 255) # octets)
            = ((if drop_bit 8 v < 0 then -1 else 0), pre @ (v AND 255) # octets)"
         "pre \<noteq> []" "is_octets pre" "hd pre = (if drop_bit 8 v < 0 then 255 else 0)"
         "be_unsigned pre = (if drop_bit 8 v < 0 then drop_bit 8 v + 256 ^ length pre else drop_bit 8 v)"
      by auto
    have sg: "(drop_bit 8 v < 0) = (v < 0)" by simp
    have dm: "drop_bit 8 v * 256 + v mod 256 = v" by (simp add: drop_bit_eq_div)
    have r: "0 \<le> v mod 256" "v mod 256 < 256" by simp_all
    let ?pre = "pre @ [v AND 255]"
    have "IntegerEncoder_loop v octets = ((if v < 0 then -1 else 0), ?pre @ octets)"
      using False p(1) sg by (subst IntegerEncoder_loop.simps) (simp add: Let_def)
    moreover have "?pre \<noteq> []" by simp
    moreover have "is_octets ?pre" using p(3) r by (simp add: is_octets_def and_255)
    moreover have "hd ?pre = (if v < 0 then 255 else 0)" using p(2,4) sg by simp
    moreover have "be_unsigned ?pre = (if v < 0 then v + 256 ^ length ?pre else v)"
      using p(5) sg dm by (simp add: be_unsigned_snoc and_255 algebra_simps)
    ultimately show ?thesis by blast
  qed
qed

lemma strip_step_value:
  assumes b: "0 \<le> b" "b < 256"
      and red: "(a = 0 \<and> b AND 0x80 = 0) \<or> (a = 0xff \<and> b AND 0x80 \<noteq> 0)"
  shows "twos_complement (a # b # rest) = twos_complement (b # rest)"
proof -
  note b128 = and_128_iff[OF b]
  from red show ?thesis
  proof
    assume "a = 0 \<and> b AND 0x80 = 0"
    then have "a = 0" "\<not> 128 \<le> b" using b128 by auto
    then show ?thesis by (simp add: twos_complement_Cons be_unsigned_Cons)
  next
    assume "a = 0xff \<and> b AND 0x80 \<noteq> 0"
    then have "a = 255" "128 \<le> b" using b128 by auto
    then show ?thesis by (simp add: twos_complement_Cons be_unsigned_Cons)
  qed
qed

lemma IntegerEncoder_strip_props:
  "is_octets xs \<Longrightarrow> xs \<noteq> [] \<Longrightarrow>
     IntegerEncoder_strip xs \<noteq> [] \<and> is_octets (IntegerEncoder_strip xs)
     \<and> \<not> redundant_lead (IntegerEncoder_strip xs)
     \<and> twos_complement (IntegerEncoder_strip xs) = twos_complement xs"
proof (induction xs rule: IntegerEncoder_strip.induct)
  case (1 a b rest)
  from 1(2) have b: "0 \<le> b" "b < 256" and br: "is_octets (b # rest)"
    by (auto simp: is_octets_def)
  show ?case
  proof (cases "(a = 0 \<and> b AND 0x80 = 0) \<or> (a = 0xff \<and> b AND 0x80 \<noteq> 0)")
    case True
    from 1(1)[OF True br] have ih:
      "IntegerEncoder_strip (b # rest) \<noteq> []" "is_octets (IntegerEncoder_strip (b # rest))"
      "\<not> redundant_lead (IntegerEncoder_strip (b # rest))"
      "twos_complement (IntegerEncoder_strip (b # rest)) = twos_complement (b # rest)" by auto
    have st: "IntegerEncoder_strip (a # b # rest) = IntegerEncoder_strip (b # rest)"
      using True by simp
    show ?thesis unfolding st using ih strip_step_value[OF b True] by simp
  next
    case False
    have st: "IntegerEncoder_strip (a # b # rest) = a # b # rest"
      unfolding IntegerEncoder_strip.simps using False by (rule if_not_P)
    from False and_128_iff[OF b] have "\<not> redundant_lead (a # b # rest)" by auto
    with 1(2) show ?thesis unfolding st by simp
  qed
qed simp_all

lemma IntegerEncoder_encodeValue_eq:
  "\<exists>pre. IntegerEncoder_encodeValue n = Inr (IntegerEncoder_strip pre, False)
      \<and> pre \<noteq> [] \<and> is_octets pre \<and> twos_complement pre = n"
proof -
  from IntegerEncoder_loop_inv[of n "[]"] obtain pre where
    p: "IntegerEncoder_loop n [] = ((if n < 0 then -1 else 0), pre)" "pre \<noteq> []" "is_octets pre"
       "hd pre = (if n < 0 then 255 else 0)"
       "be_unsigned pre = (if n < 0 then n + 256 ^ length pre else n)" by auto
  have tc: "twos_complement pre = n" using p(2,4,5) by (simp add: twos_complement_def)
  have nofix: "\<not> ((if n < 0 then -1 else (0::int)) = 0 \<and> hd pre AND 0x80 \<noteq> 0)"
    using p(4) by simp
  from IntegerEncoder_strip_props[OF p(3,2)] have "is_octets (IntegerEncoder_strip pre)" by simp
  then have i2o: "ints2octs (IntegerEncoder_strip pre) = Inr (IntegerEncoder_strip pre)"
    by (simp add: ints2octs_def is_octets_def)
  have "IntegerEncoder_encodeValue n = Inr (IntegerEncoder_strip pre, False)"
    unfolding IntegerEncoder_encodeValue_def p(1) using nofix i2o by (simp add: Let_def)
  with p(2,3) tc show ?thesis by blast
qed

text \<open>
  Claim C1. For every integer \<open>n\<close>, \<^verbatim>\<open>IntegerEncoder.encodeValue\<close> returns (it raises
  nothing) a non-empty octet sequence and the is-constructed flag 0. The octets are the
  two's-complement big-endian representation of \<open>n\<close>; the top octet is not \<open>0x00\<close> before
  an octet with bit 7 clear and not \<open>0xFF\<close> before an octet with bit 7 set; zero encodes as
  the single octet \<open>0x00\<close>; and no octet sequence that represents \<open>n\<close> is shorter.
\<close>

theorem IntegerEncoder_encodeValue_minimal:
  "\<exists>octs. IntegerEncoder_encodeValue n = Inr (octs, False)
     \<and> octs \<noteq> [] \<and> is_octets octs
     \<and> twos_complement octs = n
     \<and> \<not> redundant_lead octs
     \<and> (n = 0 \<longrightarrow> octs = [0])
     \<and> (\<forall>ys. is_octets ys \<and> ys \<noteq> [] \<and> twos_complement ys = n \<longrightarrow> length octs \<le> length ys)"
proof -
  from IntegerEncoder_encodeValue_eq[of n] obtain pre where
    e: "IntegerEncoder_encodeValue n = Inr (IntegerEncoder_strip pre, False)"
    and p: "pre \<noteq> []" "is_octets pre" "twos_complement pre = n" by blast
  let ?o = "IntegerEncoder_strip pre"
  from IntegerEncoder_strip_props[OF p(2,1)] p(3) have s: "?o \<noteq> []" "is_octets ?o"
    "\<not> redundant_lead ?o" "twos_complement ?o = n" by simp_all
  have z: "n = 0 \<longrightarrow> ?o = [0]"
  proof
    assume "n = 0"
    then have "IntegerEncoder_encodeValue n = Inr ([0], False)"
      by (simp add: IntegerEncoder_encodeValue_def ints2octs_def)
    with e show "?o = [0]" by simp
  qed
  have sh: "\<forall>ys. is_octets ys \<and> ys \<noteq> [] \<and> twos_complement ys = n \<longrightarrow> length ?o \<le> length ys"
    using not_redundant_shortest[OF s(2,1,3)] s(4) by simp
  from e s z sh show ?thesis by blast
qed

theorem IntegerEncoder_encodeValue_minimal_witness:
  "IntegerEncoder_encodeValue (-129) = Inr ([255, 127], False)
   \<and> is_octets [255, 127] \<and> twos_complement [255, 127] = -129 \<and> \<not> redundant_lead [255, 127]
   \<and> is_octets [255, 255, 127] \<and> twos_complement [255, 255, 127] = -129
   \<and> length [255, 127 :: int] \<le> length [255, 255, 127 :: int]"
  using IntegerEncoder_encodeValue_minimal[of "-129"]
  by (simp add: IntegerEncoder_encodeValue_def ints2octs_def is_octets_def twos_complement_def
      be_unsigned_def)

subsection \<open>Identifier octets\<close>

lemma class_format_octet:
  assumes c: "c \<in> {0, 0x40, 0x80, 0xC0::int}" and f: "f \<in> {0, 0x20::int}"
  shows "(c OR f) AND 0xC0 = c" "(c OR f) AND 0x1F = 0" "((c OR f) AND 0x20 \<noteq> 0) = (f = 0x20)"
        "0 \<le> c OR f" "c OR f \<le> 224"
  using c f by auto

lemma class_format_constructed_octet:
  assumes c: "c \<in> {0, 0x40, 0x80, 0xC0::int}" and f: "f \<in> {0, 0x20::int}"
  shows "((c OR f) OR 0x20) AND 0xC0 = c" "((c OR f) OR 0x20) AND 0x1F = 0"
        "((c OR f) OR 0x20) AND 0x20 \<noteq> 0"
        "0 \<le> (c OR f) OR 0x20" "(c OR f) OR 0x20 \<le> 224"
  using c f by auto

lemma lead_octet:
  fixes v t :: int
  assumes v: "v AND 0x1F = 0" "0 \<le> v" "v \<le> 224" and t: "0 \<le> t" "t < 32"
  shows "(v OR t) AND 0xC0 = v AND 0xC0" "(v OR t) AND 0x1F = t"
        "(v OR t) AND 0x20 = v AND 0x20"
        "0 \<le> v OR t" "v OR t < 256"
proof -
  have d1: "t AND 0xC0 = 0"
    by (rule and_low5_disjoint[OF t]) simp
  have d2: "t AND 0x20 = 0"
    by (rule and_low5_disjoint[OF t]) simp
  show "(v OR t) AND 0xC0 = v AND 0xC0"
    by (simp add: bit.conj_disj_distrib2 d1)
  show "(v OR t) AND 0x1F = t"
    by (simp add: bit.conj_disj_distrib2 v(1) and_31_self[OF t])
  show "(v OR t) AND 0x20 = v AND 0x20"
    by (simp add: bit.conj_disj_distrib2 d2)
  from or_low5_add[OF t v(1)] have e: "v OR t = v + t" .
  show "0 \<le> v OR t" unfolding e using v t by simp
  show "v OR t < 256" unfolding e using v t by simp
qed

lemma continuation_octet:
  "int2oct (0x80 OR (n AND 0x7f)) = Inr [128 + n mod 128]"
  "(128 + n mod 128) AND 0x7f = n mod 128"
proof -
  have r: "0 \<le> n mod 128" "n mod 128 < 128" by simp_all
  show "int2oct (0x80 OR (n AND 0x7f)) = Inr [128 + n mod 128]"
    using r by (simp add: and_127 or_128_add int2oct_def)
  show "(128 + n mod 128) AND 0x7f = n mod 128"
    by (simp add: and_127)
qed

text \<open>On a number that is not negative the loop of \<^verbatim>\<open>encodeTag\<close> returns.\<close>

lemma encodeTag_loop_returns:
  "0 \<le> n \<Longrightarrow> \<exists>pre. encodeTag_loop n s = Some (Inr (pre @ s))
      \<and> (\<forall>x \<in> set pre. 128 \<le> x \<and> x < 256)
      \<and> be128 (map (\<lambda>x. x AND 0x7f) pre) = n"
proof (induction "nat n" arbitrary: n s rule: less_induct)
  case less
  show ?case
  proof (cases "n = 0")
    case True
    then have "encodeTag_loop n s = Some (Inr ([] @ s))"
      by (subst encodeTag_loop.simps) simp
    then show ?thesis using True by (intro exI[of _ "[]"]) (simp add: be128_def)
  next
    case False
    with less.prems have pos: "0 < n" by simp
    then have "nat (drop_bit 7 n) < nat n" "0 \<le> drop_bit 7 n"
      by (simp_all add: drop_bit_eq_div)
    from less.hyps[OF this, of "(128 + n mod 128) # s"] obtain pre where
      p: "encodeTag_loop (drop_bit 7 n) ((128 + n mod 128) # s)
            = Some (Inr (pre @ (128 + n mod 128) # s))"
         "\<forall>x \<in> set pre. 128 \<le> x \<and> x < 256"
         "be128 (map (\<lambda>x. x AND 0x7f) pre) = drop_bit 7 n" by blast
    have "encodeTag_loop n s = Some (Inr ((pre @ [128 + n mod 128]) @ s))"
      using False p(1) by (subst encodeTag_loop.simps) (simp add: continuation_octet rbind_def)
    moreover have "\<forall>x \<in> set (pre @ [128 + n mod 128]). 128 \<le> x \<and> x < 256"
      using p(2) by auto
    moreover have "be128 (map (\<lambda>x. x AND 0x7f) (pre @ [128 + n mod 128])) = n"
      using p(3) continuation_octet(2)[of n] by (simp add: be128_snoc drop_bit_eq_div)
    ultimately show ?thesis by blast
  qed
qed

text \<open>
  On a number that is not negative the loop of \<^verbatim>\<open>encodeTag\<close> puts exactly the base-128 digits
  of the number, each with the high bit set, in front of the octets it is given.
\<close>

lemma encodeTag_loop_digits:
  "0 \<le> n \<Longrightarrow> encodeTag_loop n s
      = Some (Inr (map (\<lambda>d. 0x80 + d) (if n = 0 then [] else base128 n) @ s))"
proof (induction "nat n" arbitrary: n s rule: less_induct)
  case less
  show ?case
  proof (cases "n = 0")
    case True
    then show ?thesis by (subst encodeTag_loop.simps) simp
  next
    case False
    with less.prems have pos: "0 < n" by simp
    then have d: "nat (drop_bit 7 n) < nat n" "0 \<le> drop_bit 7 n"
      by (simp_all add: drop_bit_eq_div)
    have "encodeTag_loop n s = encodeTag_loop (drop_bit 7 n) ((128 + n mod 128) # s)"
      using False by (subst encodeTag_loop.simps) (simp add: continuation_octet rbind_def)
    also have "\<dots> = Some (Inr (map (\<lambda>d. 0x80 + d)
                   (if drop_bit 7 n = 0 then [] else base128 (drop_bit 7 n))
                 @ (128 + n mod 128) # s))"
      by (rule less.hyps[OF d])
    also have "map (\<lambda>d. 0x80 + d) (if drop_bit 7 n = 0 then [] else base128 (drop_bit 7 n))
                 @ (128 + n mod 128) # s
             = map (\<lambda>d. 0x80 + d) (base128 n) @ s"
    proof (cases "n < 128")
      case True
      with pos have "drop_bit 7 n = 0" "n mod 128 = n" by (simp_all add: drop_bit_eq_div)
      with True show ?thesis by (subst (2) base128.simps) simp
    next
      case False
      then have "drop_bit 7 n \<noteq> 0" by (simp add: drop_bit_eq_div)
      with False show ?thesis by (subst (2) base128.simps) (simp add: drop_bit_eq_div)
    qed
    finally show ?thesis using False by simp
  qed
qed

lemma encodeTag_body:
  assumes "31 \<le> n"
  shows "map (\<lambda>d. 0x80 + d) (if drop_bit 7 n = 0 then [] else base128 (drop_bit 7 n)) @ [n mod 128]
           = subid_octets n"
proof (cases "n < 128")
  case True
  with assms have "drop_bit 7 n = 0" "n mod 128 = n" by (simp_all add: drop_bit_eq_div)
  with True show ?thesis by (simp add: subid_octets_def base128.simps[of n])
next
  case False
  then have "drop_bit 7 n \<noteq> 0" by (simp add: drop_bit_eq_div)
  moreover have "base128 n = base128 (n div 128) @ [n mod 128]"
    using False by (subst base128.simps) simp
  ultimately show ?thesis by (simp add: subid_octets_def drop_bit_eq_div)
qed

text \<open>
  Claim C2, as amended. For every well-formed tag and every constructed flag,
  \<^verbatim>\<open>encodeTag\<close> returns one leading octet whose high two bits are the class and whose
  low five bits are the number when the number is below 31 and \<open>0x1F\<close> otherwise; bit 6
  (\<open>0x20\<close>) of the leading octet is set if and only if the constructed flag is set or the
  tag's own form is CONSTRUCTED. For a number of 31 or more the leading octet is followed
  by exactly the base-128 big-endian octets of the number (its digits \<^term>\<open>base128\<close>, with no
  padding), all but the last with the high bit set and the last with the high bit clear.
\<close>

theorem encodeTag_octets:
  assumes wf: "wf_tag t"
  shows "\<exists>lead body. encodeTag t isConstructed = Some (Inr (lead # body))
      \<and> 0 \<le> lead \<and> lead < 256
      \<and> lead AND 0xC0 = tagClass t
      \<and> ((lead AND 0x20 \<noteq> 0) = (isConstructed \<or> tagFormat t = 0x20))
      \<and> (if tagId t < 31 then lead AND 0x1F = tagId t \<and> body = []
          else lead AND 0x1F = 0x1F \<and> body \<noteq> []
             \<and> body = subid_octets (tagId t)
             \<and> (\<forall>x \<in> set (butlast body). 0 \<le> x \<and> x < 256 \<and> x AND 0x80 \<noteq> 0)
             \<and> 0 \<le> last body \<and> last body < 256 \<and> last body AND 0x80 = 0
             \<and> be128 (map (\<lambda>x. x AND 0x7f) body) = tagId t)"
proof -
  from wf have c: "tagClass t \<in> {0, 0x40, 0x80, 0xC0}" and f: "tagFormat t \<in> {0, 0x20}"
    and n: "0 \<le> tagId t" by (auto simp: wf_tag_def)
  define v where "v = (if isConstructed then (tagClass t OR tagFormat t) OR tagFormatConstructed
                       else tagClass t OR tagFormat t)"
  have v: "v AND 0x1F = 0" "0 \<le> v" "v \<le> 224" "v AND 0xC0 = tagClass t"
    "(v AND 0x20 \<noteq> 0) = (isConstructed \<or> tagFormat t = 0x20)"
    using class_format_octet[OF c f] class_format_constructed_octet[OF c f]
    by (auto simp: v_def tagFormatConstructed_def)
  show ?thesis
  proof (cases "tagId t < 31")
    case True
    with n have t: "0 \<le> tagId t" "tagId t < 32" by simp_all
    note l = lead_octet[OF v(1,2,3) t]
    have "encodeTag t isConstructed = Some (Inr [v OR tagId t])"
      using True l(4,5) by (simp add: encodeTag_def Let_def v_def int2oct_def)
    with True l v(4,5) show ?thesis by simp
  next
    case False
    have t: "0 \<le> (31::int)" "(31::int) < 32" by simp_all
    note l = lead_octet[OF v(1,2,3) t]
    let ?d = "tagId t mod 128"
    have r: "0 \<le> ?d" "?d < 128" by simp_all
    have low: "int2oct (tagId t AND 0x7f) = Inr [?d]"
      using r by (simp add: and_127 int2oct_def)
    from n have nn: "0 \<le> drop_bit 7 (tagId t)" by simp
    from encodeTag_loop_returns[OF nn, of "[?d]"] obtain pre where
      p: "encodeTag_loop (drop_bit 7 (tagId t)) [?d] = Some (Inr (pre @ [?d]))"
         "\<forall>x \<in> set pre. 128 \<le> x \<and> x < 256"
         "be128 (map (\<lambda>x. x AND 0x7f) pre) = drop_bit 7 (tagId t)" by blast
    from p(1) encodeTag_loop_digits[OF nn, of "[?d]"] have
      "pre @ [?d] = map (\<lambda>d. 0x80 + d)
          (if drop_bit 7 (tagId t) = 0 then [] else base128 (drop_bit 7 (tagId t))) @ [?d]"
      by simp
    also have "\<dots> = subid_octets (tagId t)" using False by (intro encodeTag_body) simp
    finally have body: "pre @ [?d] = subid_octets (tagId t)" .
    have e: "encodeTag t isConstructed = Some (Inr ((v OR 31) # pre @ [?d]))"
      using False l(4,5) low p(1)
      by (simp add: encodeTag_def Let_def v_def[symmetric] rbind_def int2oct_def)
    have hi: "\<forall>x \<in> set pre. 0 \<le> x \<and> x < 256 \<and> x AND 0x80 \<noteq> 0"
    proof
      fix x assume "x \<in> set pre"
      with p(2) have x: "128 \<le> x" "x < 256" by auto
      then have "0 \<le> x" by simp
      from and_128_iff[OF this x(2)] x show "0 \<le> x \<and> x < 256 \<and> x AND 0x80 \<noteq> 0" by simp
    qed
    have lo: "?d AND 0x80 = 0" using and_128_iff[of ?d] r by simp
    have val: "be128 (map (\<lambda>x. x AND 0x7f) (pre @ [?d])) = tagId t"
      using p(3) by (simp add: be128_snoc and_127 drop_bit_eq_div)
    from e False l v(4,5) hi lo r val body[symmetric] show ?thesis
      by (intro exI[of _ "v OR 31"] exI[of _ "pre @ [?d]"]) simp
  qed
qed

theorem encodeTag_octets_witness:
  "wf_tag \<lparr>tagClass = 0x40, tagFormat = 0, tagId = 1000\<rparr>
   \<and> encodeTag \<lparr>tagClass = 0x40, tagFormat = 0, tagId = 1000\<rparr> True = Some (Inr [0x7F, 0x87, 0x68])
   \<and> (0x7F::int) AND 0xC0 = 0x40 \<and> (0x7F::int) AND 0x20 \<noteq> 0 \<and> (0x7F::int) AND 0x1F = 0x1F
   \<and> subid_octets 1000 = [0x87, 0x68]
   \<and> (0x87::int) AND 0x80 \<noteq> 0 \<and> (0x68::int) AND 0x80 = 0
   \<and> be128 (map (\<lambda>x. x AND 0x7f) [0x87, 0x68]) = 1000"
proof -
  have w: "wf_tag \<lparr>tagClass = 0x40, tagFormat = 0, tagId = 1000\<rparr>" by (simp add: wf_tag_def)
  have e: "encodeTag \<lparr>tagClass = 0x40, tagFormat = 0, tagId = 1000\<rparr> True
             = Some (Inr [0x7F, 0x87, 0x68])"
    by (simp add: encodeTag_def encodeTag_loop.simps rbind_def int2oct_def tagFormatConstructed_def)
  have s: "subid_octets 1000 = [0x87, 0x68]" by code_simp
  show ?thesis using w e encodeTag_octets[OF w, of True] by (simp add: be128_def s)
qed

text \<open>
  The claim as written (bit 6 is set if and only if the constructed flag is set) fails
  for the tag (UNIVERSAL, CONSTRUCTED, 16) with the flag clear: the leading octet is
  \<open>0x30\<close>, whose bit 6 is set, because \<^verbatim>\<open>encodeTag\<close> starts from \<^verbatim>\<open>tagClass | tagFormat\<close>.
\<close>

theorem encodeTag_constructed_flag_counterexample:
  "encodeTag \<lparr>tagClass = 0, tagFormat = 0x20, tagId = 16\<rparr> False = Some (Inr [0x30])
   \<and> \<not> (((0x30::int) AND 0x20 \<noteq> 0) = False)"
  by (simp add: encodeTag_def int2oct_def)

subsection \<open>Length octets\<close>

text \<open>On a length that is not negative the loop of \<^verbatim>\<open>encodeLength\<close> returns the minimal
  big-endian octets of the length.\<close>

lemma encodeLength_loop_returns:
  "0 \<le> n \<Longrightarrow> \<exists>pre. encodeLength_loop n s = Some (Inr (pre @ s))
      \<and> is_octets pre \<and> be_unsigned pre = n \<and> (if n = 0 then pre = [] else hd pre \<noteq> 0)"
proof (induction "nat n" arbitrary: n s rule: less_induct)
  case less
  show ?case
  proof (cases "n = 0")
    case True
    then have "encodeLength_loop n s = Some (Inr ([] @ s))"
      by (subst encodeLength_loop.simps) simp
    then show ?thesis using True by (intro exI[of _ "[]"]) (simp add: be_unsigned_def is_octets_def)
  next
    case False
    with less.prems have pos: "0 < n" by simp
    then have "nat (drop_bit 8 n) < nat n" "0 \<le> drop_bit 8 n"
      by (simp_all add: drop_bit_eq_div)
    from less.hyps[OF this, of "(n mod 256) # s"] obtain pre where
      p: "encodeLength_loop (drop_bit 8 n) ((n mod 256) # s) = Some (Inr (pre @ (n mod 256) # s))"
         "is_octets pre" "be_unsigned pre = drop_bit 8 n"
         "if drop_bit 8 n = 0 then pre = [] else hd pre \<noteq> 0" by blast
    have r: "0 \<le> n mod 256" "n mod 256 < 256" by simp_all
    have "encodeLength_loop n s = Some (Inr ((pre @ [n mod 256]) @ s))"
      using False p(1) r by (subst encodeLength_loop.simps) (simp add: and_255 int2oct_def rbind_def)
    moreover have "is_octets (pre @ [n mod 256])"
      using p(2) r by (simp add: is_octets_def)
    moreover have "be_unsigned (pre @ [n mod 256]) = n"
      using p(3) by (simp add: be_unsigned_snoc drop_bit_eq_div)
    moreover have "hd (pre @ [n mod 256]) \<noteq> 0"
    proof (cases "drop_bit 8 n = 0")
      case True
      with p(4) have "pre = []" by simp
      moreover have "n div 256 = 0" using True by (simp add: drop_bit_eq_div)
      with pos have "n mod 256 \<noteq> 0" by presburger
      ultimately show ?thesis by simp
    next
      case False
      with p(4) have "hd pre \<noteq> 0" by simp
      moreover from this p(3) False have "pre \<noteq> []" by (auto simp: be_unsigned_def)
      ultimately show ?thesis by simp
    qed
    ultimately show ?thesis using False by (intro exI[of _ "pre @ [n mod 256]"]) simp
  qed
qed


text \<open>
  Claim C3. For every non-negative length and every mode, \<^verbatim>\<open>encodeLength\<close> returns the
  single octet \<open>0x80\<close> when indefinite mode is requested and the codec supports it;
  otherwise the single octet equal to the length when the length is below 128; otherwise,
  with \<open>ds\<close> the \<open>k\<close> big-endian octets of the length (no leading zero octet), the octet
  \<open>0x80 | k\<close> followed by \<open>ds\<close> when \<open>k \<le> 126\<close>, and the error "length octets overflow"
  when \<open>k > 126\<close>.
\<close>

theorem encodeLength_octets:
  assumes n: "0 \<le> n"
  shows "\<exists>ds. is_octets ds \<and> be_unsigned ds = n \<and> (n \<noteq> 0 \<longrightarrow> hd ds \<noteq> 0)
     \<and> encodeLength supportIndef n defMode =
        (if \<not> defMode \<and> supportIndef then Some (Inr [0x80])
         else if n < 128 then Some (Inr [n])
         else if int (length ds) > 126 then Some (Inl (LengthOctetsOverflow (int (length ds))))
         else Some (Inr ((0x80 OR int (length ds)) # ds)))"
proof -
  from encodeLength_loop_returns[OF n, of "[]"] obtain ds where
    d: "encodeLength_loop n [] = Some (Inr ds)" "is_octets ds" "be_unsigned ds = n"
       "if n = 0 then ds = [] else hd ds \<noteq> 0" by auto
  have k: "\<not> int (length ds) > 126 \<Longrightarrow> int2oct (0x80 OR int (length ds)) = Inr [0x80 OR int (length ds)]"
  proof -
    assume "\<not> int (length ds) > 126"
    then have "0 \<le> int (length ds)" "int (length ds) < 128" by simp_all
    from or_128_add[OF this] this show ?thesis by (simp add: int2oct_def)
  qed
  have "encodeLength supportIndef n defMode =
        (if \<not> defMode \<and> supportIndef then Some (Inr [0x80])
         else if n < 128 then Some (Inr [n])
         else if int (length ds) > 126 then Some (Inl (LengthOctetsOverflow (int (length ds))))
         else Some (Inr ((0x80 OR int (length ds)) # ds)))"
    using n d(1) k by (simp add: encodeLength_def rbind_def Let_def int2oct_def)
  with d show ?thesis by (intro exI[of _ ds]) (simp split: if_splits)
qed

theorem encodeLength_octets_witness:
  "(0::int) \<le> 300 \<and> is_octets [1, 44] \<and> be_unsigned [1, 44] = 300
   \<and> encodeLength False 300 False = Some (Inr [0x82, 1, 44])
   \<and> encodeLength True 300 False = Some (Inr [0x80])
   \<and> encodeLength True 5 True = Some (Inr [5])"
proof -
  have h: "(0::int) \<le> 300" by simp
  show ?thesis using encodeLength_octets[OF h, of False False]
    by (simp add: encodeLength_def encodeLength_loop.simps rbind_def int2oct_def is_octets_def
        be_unsigned_def)
qed

subsection \<open>OBJECT IDENTIFIER content octets\<close>

declare base128.simps [simp del] ObjectIdentifierEncoder_pack.simps [simp del]

lemma base128_ne: "base128 n \<noteq> []"
  by (subst base128.simps) simp

lemma pack_eq:
  "0 \<le> n \<Longrightarrow> ObjectIdentifierEncoder_pack n res
      = map (\<lambda>d. 0x80 + d) (if n = 0 then [] else base128 n) @ res"
proof (induction n res rule: ObjectIdentifierEncoder_pack.induct)
  case (1 subid res)
  show ?case
  proof (cases "subid > 0")
    case False
    with 1(2) show ?thesis by (subst ObjectIdentifierEncoder_pack.simps) simp
  next
    case True
    then have nn: "0 \<le> drop_bit 7 subid" by simp
    have o: "0x80 OR (subid AND 0x7f) = 128 + subid mod 128"
      by (simp add: and_127 or_128_add)
    have "ObjectIdentifierEncoder_pack subid res
        = ObjectIdentifierEncoder_pack (drop_bit 7 subid) ((128 + subid mod 128) # res)"
      using True o by (subst ObjectIdentifierEncoder_pack.simps) simp
    also have "\<dots> = map (\<lambda>d. 0x80 + d) (if drop_bit 7 subid = 0 then [] else base128 (drop_bit 7 subid))
                       @ (128 + subid mod 128) # res"
      using 1(1)[OF True nn] o by simp
    also have "\<dots> = map (\<lambda>d. 0x80 + d) (base128 subid) @ res"
    proof (cases "subid < 128")
      case True
      with \<open>subid > 0\<close> have "drop_bit 7 subid = 0" "subid mod 128 = subid"
        by (simp_all add: drop_bit_eq_div)
      with True show ?thesis by (subst (2) base128.simps) simp
    next
      case False
      then have "drop_bit 7 subid \<noteq> 0" by (simp add: drop_bit_eq_div)
      with False show ?thesis by (subst (2) base128.simps) (simp add: drop_bit_eq_div)
    qed
    finally show ?thesis using True by simp
  qed
qed

lemma subid_small: "0 \<le> s \<Longrightarrow> s < 128 \<Longrightarrow> [s AND 0x7f] = subid_octets s"
  by (simp add: subid_octets_def base128.simps[of s] and_127)

lemma subid_large:
  assumes "128 \<le> s"
  shows "ObjectIdentifierEncoder_pack (drop_bit 7 s) [s AND 0x7f] = subid_octets s"
proof -
  from assms have d: "0 \<le> drop_bit 7 s" "drop_bit 7 s \<noteq> 0" by (simp_all add: drop_bit_eq_div)
  have b: "base128 s = base128 (s div 128) @ [s mod 128]"
    using assms by (subst base128.simps) simp
  show ?thesis using pack_eq[OF d(1), of "[s AND 0x7f]"] d(2)
    by (simp add: subid_octets_def b and_127 drop_bit_eq_div)
qed

lemma base128_digits: "0 \<le> n \<Longrightarrow> \<forall>d \<in> set (base128 n). 0 \<le> d \<and> d < 128"
proof (induction n rule: base128.induct)
  case (1 n)
  show ?case
  proof (cases "n < 128")
    case True with 1(2) show ?thesis by (subst base128.simps) simp
  next
    case False
    then have "0 \<le> n div 128" by simp
    from 1(1)[OF False this] False show ?thesis by (subst base128.simps) auto
  qed
qed

lemma subid_octets_is_octets: "0 \<le> s \<Longrightarrow> is_octets (subid_octets s)"
proof -
  assume s: "0 \<le> s"
  from base128_digits[OF s] have d: "\<forall>d \<in> set (base128 s). 0 \<le> d \<and> d < 128" .
  have "last (base128 s) \<in> set (base128 s)" using base128_ne by simp
  with d have l: "0 \<le> last (base128 s)" "last (base128 s) < 128" by auto
  have "\<forall>d \<in> set (butlast (base128 s)). 0 \<le> d \<and> d < 128"
    using d by (auto dest: in_set_butlastD)
  with l show ?thesis by (auto simp: is_octets_def subid_octets_def)
qed

lemma subids_ok:
  "\<forall>s \<in> set xs. \<not> (s < 0 \<or> s > 2 ^ 32 - 1) \<Longrightarrow>
     ObjectIdentifierEncoder_subids xs acc = Inr (acc @ concat (map subid_octets xs))"
proof (induction xs arbitrary: acc)
  case Nil show ?case by simp
next
  case (Cons s xs)
  then have s: "0 \<le> s" "s \<le> 4294967295" and r: "\<forall>s \<in> set xs. \<not> (s < 0 \<or> s > 2 ^ 32 - 1)" by auto
  show ?case
  proof (cases "s < 128")
    case True
    with s Cons.IH[OF r] subid_small[OF s(1) True] show ?thesis by simp
  next
    case False
    then have "128 \<le> s" by simp
    from subid_large[OF this] False s Cons.IH[OF r] show ?thesis by simp
  qed
qed

lemma subids_bad:
  "\<exists>s \<in> set xs. s < 0 \<or> s > 2 ^ 32 - 1 \<Longrightarrow> \<exists>e. ObjectIdentifierEncoder_subids xs acc = Inl e"
proof (induction xs arbitrary: acc)
  case Nil then show ?case by simp
next
  case (Cons s xs)
  show ?case
  proof (cases "s < 0 \<or> s > 2 ^ 32 - 1")
    case True then show ?thesis by auto
  next
    case False
    with Cons.prems have "\<exists>s \<in> set xs. s < 0 \<or> s > 2 ^ 32 - 1" by auto
    from Cons.IH[OF this] False show ?thesis by simp
  qed
qed

lemma precomputed_cases:
  "map_of precomputedValues k = Some v \<Longrightarrow>
     (k = [1, 3, 6, 1, 2] \<and> v = [43, 6, 1, 2]) \<or> (k = [1, 3, 6, 1, 4] \<and> v = [43, 6, 1, 4])"
  by (auto simp: precomputedValues_def split: if_splits)

lemma take5_split: "take 5 oid = [a, b, c, d, e] \<Longrightarrow> oid = [a, b, c, d, e] @ drop 5 oid"
  by (metis append_take_drop_id)

text \<open>The initial part of the encoding: the first octet and the index of the next sub-identifier.\<close>

lemma subids_concat_small:
  "ObjectIdentifierEncoder_subids ([6, 1, x] @ rest) [43] = ObjectIdentifierEncoder_subids rest [43, 6, 1, x]"
  if "0 \<le> x" "x < 128"
  using that by (simp add: and_127)

lemma oid_precomputed:
  assumes "map_of precomputedValues (take 5 oid) = Some v"
  shows "2 \<le> length oid \<and> 40 * oid ! 0 + oid ! 1 = 43
     \<and> ObjectIdentifierEncoder_subids (drop 5 oid) v = ObjectIdentifierEncoder_subids (drop 2 oid) [43]"
proof -
  from precomputed_cases[OF assms] show ?thesis
  proof
    assume a: "take 5 oid = [1, 3, 6, 1, 2] \<and> v = [43, 6, 1, 2]"
    then have o: "oid = [1, 3, 6, 1, 2] @ drop 5 oid" by (intro take5_split) simp
    have "drop 2 oid = [6, 1, 2] @ drop 5 oid" by (subst o) simp
    moreover have "2 \<le> length oid" "oid ! 0 = 1" "oid ! 1 = 3" by (subst o, simp)+
    ultimately show ?thesis using a by (simp add: and_127)
  next
    assume a: "take 5 oid = [1, 3, 6, 1, 4] \<and> v = [43, 6, 1, 4]"
    then have o: "oid = [1, 3, 6, 1, 4] @ drop 5 oid" by (intro take5_split) simp
    have "drop 2 oid = [6, 1, 4] @ drop 5 oid" by (subst o) simp
    moreover have "2 \<le> length oid" "oid ! 0 = 1" "oid ! 1 = 3" by (subst o, simp)+
    ultimately show ?thesis using a by (simp add: and_127)
  qed
qed

lemma ObjectIdentifierEncoder_encodeValue_eq:
  "ObjectIdentifierEncoder_encodeValue oid =
     (if length oid < 2 then Inl ShortOID
      else if 40 * oid ! 0 + oid ! 1 < 0 \<or> 40 * oid ! 0 + oid ! 1 > 255 then Inl InitialSubIdOverflow
      else case ObjectIdentifierEncoder_subids (drop 2 oid) [40 * oid ! 0 + oid ! 1] of
             Inl e \<Rightarrow> Inl e
           | Inr octets \<Rightarrow> (case ints2octs octets of Inl e \<Rightarrow> Inl e | Inr s \<Rightarrow> Inr (s, False)))"
proof (cases "map_of precomputedValues (take 5 oid)")
  case None
  then show ?thesis
    by (simp add: ObjectIdentifierEncoder_encodeValue_def Let_def mult.commute)
next
  case (Some v)
  from oid_precomputed[OF Some] show ?thesis
    by (simp add: ObjectIdentifierEncoder_encodeValue_def Some)
qed

text \<open>
  Claim C9. \<^verbatim>\<open>ObjectIdentifierEncoder.encodeValue\<close> raises an error exactly when the OID
  has fewer than two sub-identifiers, or \<open>40 * first + second\<close> is outside \<open>0..255\<close>, or a
  later sub-identifier is negative or exceeds \<open>2^32 - 1\<close>. Otherwise it returns
  \<open>40 * first + second\<close> as the first content octet, followed by each later
  sub-identifier in base-128 big-endian form with the high bit set on all but its last
  octet, and the is-constructed flag 0.
\<close>

theorem ObjectIdentifierEncoder_encodeValue_errors:
  "((\<exists>e. ObjectIdentifierEncoder_encodeValue oid = Inl e) = oid_rejected oid)
   \<and> (\<not> oid_rejected oid \<longrightarrow>
        ObjectIdentifierEncoder_encodeValue oid
          = Inr ((40 * oid ! 0 + oid ! 1) # concat (map subid_octets (drop 2 oid)), False))"
proof (cases "length oid < 2 \<or> \<not> (0 \<le> 40 * oid ! 0 + oid ! 1 \<and> 40 * oid ! 0 + oid ! 1 \<le> 255)")
  case True
  then show ?thesis
    by (auto simp: ObjectIdentifierEncoder_encodeValue_eq oid_rejected_def)
next
  case False
  then have h: "\<not> length oid < 2" "0 \<le> 40 * oid ! 0 + oid ! 1" "40 * oid ! 0 + oid ! 1 \<le> 255" by auto
  let ?f = "40 * oid ! 0 + oid ! 1"
  show ?thesis
  proof (cases "\<exists>s \<in> set (drop 2 oid). s < 0 \<or> s > 2 ^ 32 - 1")
    case True
    from subids_bad[OF True, of "[?f]"] obtain e where
      "ObjectIdentifierEncoder_subids (drop 2 oid) [?f] = Inl e" by blast
    with h True show ?thesis
      by (simp add: ObjectIdentifierEncoder_encodeValue_eq oid_rejected_def)
  next
    case bad: False
    then have ok: "\<forall>s \<in> set (drop 2 oid). \<not> (s < 0 \<or> s > 2 ^ 32 - 1)" by simp
    have rej: "\<not> oid_rejected oid" using h bad by (simp add: oid_rejected_def)
    have "\<forall>s \<in> set (drop 2 oid). is_octets (subid_octets s)"
    proof
      fix s assume "s \<in> set (drop 2 oid)"
      with ok have "0 \<le> s" by auto
      then show "is_octets (subid_octets s)" by (rule subid_octets_is_octets)
    qed
    then have "is_octets (?f # concat (map subid_octets (drop 2 oid)))"
      using h by (auto simp: is_octets_def)
    then have i: "ints2octs (?f # concat (map subid_octets (drop 2 oid)))
                    = Inr (?f # concat (map subid_octets (drop 2 oid)))"
      by (simp add: ints2octs_def is_octets_def)
    have "ObjectIdentifierEncoder_encodeValue oid
            = Inr (?f # concat (map subid_octets (drop 2 oid)), False)"
      using h subids_ok[OF ok, of "[?f]"] i
      by (simp add: ObjectIdentifierEncoder_encodeValue_eq)
    with rej show ?thesis by simp
  qed
qed

theorem ObjectIdentifierEncoder_encodeValue_errors_witness:
  "\<not> oid_rejected [1, 3, 6, 0, 1000]
   \<and> ObjectIdentifierEncoder_encodeValue [1, 3, 6, 0, 1000] = Inr ([43, 6, 0, 0x87, 0x68], False)
   \<and> subid_octets 1000 = [0x87, 0x68]
   \<and> oid_rejected [1, 3, 4294967296]
   \<and> ObjectIdentifierEncoder_encodeValue [1, 3, 4294967296] = Inl (SubIdOverflow 4294967296)
   \<and> oid_rejected [3, 200]
   \<and> ObjectIdentifierEncoder_encodeValue [3, 200] = Inl InitialSubIdOverflow"
  using ObjectIdentifierEncoder_encodeValue_errors[of "[1, 3, 6, 0, 1000]"]
        ObjectIdentifierEncoder_encodeValue_errors[of "[1, 3, 4294967296]"]
  by (simp add: oid_rejected_def ObjectIdentifierEncoder_encodeValue_eq subid_octets_def
      base128.simps ObjectIdentifierEncoder_pack.simps ints2octs_def)

subsection \<open>REAL content octets\<close>

text \<open>The exponent loop returns only on an exponent that is not negative.\<close>

lemma RealEncoder_exponent_returns_nonneg:
  assumes ret: "RealEncoder_exponent e eo = Some r"
  shows "0 \<le> e"
proof (rule RealEncoder_exponent.raw_induct[where P = "\<lambda>e eo r. 0 \<le> e", OF _ ret])
  fix f :: "int \<Rightarrow> octets \<Rightarrow> octets res" and e eo r
  assume IH: "\<And>e eo r. f e eo = Some r \<Longrightarrow> 0 \<le> e"
    and body: "(if e \<noteq> 0
                then rbind (Some (int2oct (e AND 0xff))) (\<lambda>b. f (drop_bit 8 e) (b @ eo))
                else Some (Inr eo)) = Some r"
  show "0 \<le> e"
  proof (cases "e = 0")
    case True then show ?thesis by simp
  next
    case False
    have r: "0 \<le> e mod 256" "e mod 256 < 256" by simp_all
    from body False r have "f (drop_bit 8 e) ([e mod 256] @ eo) = Some r"
      by (simp add: rbind_def int2oct_def and_255)
    from IH[OF this] have "0 \<le> drop_bit 8 e" .
    then show ?thesis by simp
  qed
qed

text \<open>
  Claim C7 says that \<^verbatim>\<open>RealEncoder.encodeValue\<close> terminates for every base-2 REAL with a
  nonzero mantissa, whatever the sign of the exponent. On the value \<open>(1, 2, -1)\<close> the
  code does not return: \<^verbatim>\<open>e >>= 8\<close> keeps \<open>e\<close> at \<open>-1\<close>, and \<^verbatim>\<open>while e\<close> never ends.
\<close>

theorem RealEncoder_negative_exponent_diverges:
  "RealEncoder_encodeValue (RealTuple 1 2 (-1)) = None"
proof -
  have n: "RealEncoder_normalize 1 (-1) = Some (Inr (1, -1))"
    by (subst RealEncoder_normalize.simps) simp
  have "RealEncoder_exponent (-1) [] = None"
  proof (cases "RealEncoder_exponent (-1) []")
    case (Some r)
    from RealEncoder_exponent_returns_nonneg[OF this] show ?thesis by simp
  qed simp
  with n show ?thesis by (simp add: RealEncoder_encodeValue_def rbind_def)
qed

text \<open>
  Claim C8 says that with \<open>EE = 11\<close> the octet after the leading one gives the number of
  exponent octets. On the value \<open>(1, 2, 2^24)\<close> the exponent takes four octets
  (\<open>01 00 00 00\<close>), and the code emits \<open>0x83\<close> followed by \<open>n // 0xff + 1 = 1\<close>, not 4.
\<close>

theorem RealEncoder_long_exponent_octet:
  "RealEncoder_encodeValue (RealTuple 1 2 16777216) = Some (Inr ([0x83, 1, 1, 0, 0, 0, 1], False))"
  by (simp add: RealEncoder_encodeValue_def RealEncoder_normalize.simps RealEncoder_exponent.simps
      RealEncoder_mantissa.simps rbind_def int2oct_def)

subsection \<open>Framing\<close>

lemma bit5_set: "((x OR 0x20) OR y) AND 0x20 \<noteq> (0::int)"
proof -
  have "(((x OR 0x20) OR y) AND 2 ^ 5 = 0) = (\<not> bit ((x OR 0x20) OR y) 5)"
    by (rule and_exp_eq_0_iff_not_bit)
  moreover have "bit (0x20::int) 5" by simp
  ultimately show ?thesis by (simp add: bit_or_iff)
qed

lemma int2oct_Inr: "int2oct x = Inr s \<Longrightarrow> s = [x]"
  by (simp add: int2oct_def split: if_splits)

lemma rbind_Some_Inr:
  "rbind m k = Some (Inr y) \<Longrightarrow> \<exists>x. m = Some (Inr x) \<and> k x = Some (Inr y)"
  by (auto simp: rbind_def split: option.splits sum.splits)

lemma encodeTag_constructed_bit:
  assumes "encodeTag tg True = Some (Inr t)"
  shows "t \<noteq> [] \<and> hd t AND 0x20 \<noteq> 0"
proof (cases "tagId tg < 31")
  case True
  with assms have "int2oct (((tagClass tg OR tagFormat tg) OR 0x20) OR tagId tg) = Inr t"
    by (simp add: encodeTag_def Let_def tagFormatConstructed_def)
  from int2oct_Inr[OF this] show ?thesis by (simp add: bit5_set)
next
  case False
  with assms have "rbind (Some (int2oct (tagId tg AND 0x7f))) (\<lambda>s.
              rbind (encodeTag_loop (drop_bit 7 (tagId tg)) s) (\<lambda>s.
              rbind (Some (int2oct (((tagClass tg OR tagFormat tg) OR 0x20) OR 0x1F)))
                (\<lambda>h. Some (Inr (h @ s))))) = Some (Inr t)"
    by (simp add: encodeTag_def Let_def tagFormatConstructed_def)
  then obtain s1 s2 h where
    "int2oct (((tagClass tg OR tagFormat tg) OR 0x20) OR 0x1F) = Inr h" "t = h @ s2"
    by (auto dest!: rbind_Some_Inr)
  with int2oct_Inr[OF this(1)] show ?thesis by (simp add: bit5_set)
qed

lemma encodeLength_definite:
  assumes n: "0 \<le> n" and e: "encodeLength supportIndef n True = Some (Inr l)"
  shows "l \<noteq> [] \<and> hd l \<noteq> 0x80"
proof (cases "n < 128")
  case True
  with e have "int2oct n = Inr l" by (simp add: encodeLength_def)
  from int2oct_Inr[OF this] True show ?thesis by simp
next
  case False
  from encodeLength_loop_returns[OF n, of "[]"] obtain ds where
    d: "encodeLength_loop n [] = Some (Inr ds)" "be_unsigned ds = n" by auto
  from False d(2) have "ds \<noteq> []" by (auto simp: be_unsigned_def)
  then have pos: "0 < int (length ds)" by simp
  from False e d(1) have le: "\<not> int (length ds) > 126"
    and h: "rbind (Some (int2oct (0x80 OR int (length ds)))) (\<lambda>h. Some (Inr (h @ ds))) = Some (Inr l)"
    by (auto simp: encodeLength_def rbind_def Let_def split: if_splits)
  from h obtain h' where "int2oct (0x80 OR int (length ds)) = Inr h'" "l = h' @ ds"
    by (auto dest!: rbind_Some_Inr)
  with int2oct_Inr[OF this(1)] have l: "l = (0x80 OR int (length ds)) # ds" by simp
  from le pos have "0x80 OR int (length ds) = 128 + int (length ds)"
    by (intro or_128_add) simp_all
  with l pos show ?thesis by simp
qed

lemma encodeLength_indefinite:
  "encodeLength True n False = Some (Inr [0x80])"
  by (simp add: encodeLength_def int2oct_def)

lemma Encoder_call_endOfOctets:
  assumes "concreteEncoder tagMap typeMap endOfOctets = Inr EndOfOctetsEncoder"
  shows "Encoder_call tagMap typeMap endOfOctets defMode m = Some (Inr ([0, 0], endOfOctets))"
proof -
  have t: "encodeTag \<lparr>tagClass = 0, tagFormat = 0, tagId = 0\<rparr> False = Some (Inr [0])"
    by (simp add: encodeTag_def int2oct_def)
  have l: "encodeLength True 0 True = Some (Inr [0])"
    by (simp add: encodeLength_def int2oct_def)
  have ts: "getTagSet endOfOctets = [\<lparr>tagClass = 0, tagFormat = 0, tagId = 0\<rparr>]"
    by (simp add: endOfOctets_def)
  have ev: "encodeValue EndOfOctetsEncoder (Encoder_call tagMap typeMap) endOfOctets defMode m
              = Some (Inr (([], False), endOfOctets))"
    by (simp add: encodeValue_def)
  have en: "AbstractItemEncoder_encode EndOfOctetsEncoder (Encoder_call tagMap typeMap)
              endOfOctets defMode m = Some (Inr ([0, 0], endOfOctets))"
    by (simp add: AbstractItemEncoder_encode_def ev rbind_def Let_def ts t l
          AbstractItemEncoder_encodeEndOfOctets_def)
  show ?thesis
    by (subst Encoder_call.simps) (simp add: assms rbind_def en)
qed

text \<open>
  Claim C4. Let a codec return the content \<open>substrate\<close> and the flag \<open>isConstructed\<close> for a
  tagged value, and let the framing succeed, in an encoder whose maps send the
  end-of-octets value to its codec. Then the frame is the tag octets, the length octets,
  the content and possibly an end-of-contents marker. If the codec reports primitive form,
  the length is definite (its first octet is not \<open>0x80\<close>) and no marker is appended, whatever
  mode the caller asked for. If the indefinite length \<open>0x80\<close> is emitted, the frame is
  constructed (bit 6 of the identifier octet is set) and ends with exactly one marker
  \<open>00 00\<close> after the content; with any other length octets there is no marker.
\<close>

theorem AbstractItemEncoder_encode_frame:
  assumes eoc: "concreteEncoder tagMap typeMap endOfOctets = Inr EndOfOctetsEncoder"
      and ev: "encodeValue self (Encoder_call tagMap typeMap) value defMode maxChunkSize
                 = Some (Inr ((substrate, isConstructed), value'))"
      and tagged: "getTagSet value' \<noteq> []"
      and enc: "AbstractItemEncoder_encode self (Encoder_call tagMap typeMap) value defMode maxChunkSize
                 = Some (Inr (frame, value''))"
  shows "\<exists>t l eoo. frame = t @ l @ substrate @ eoo
      \<and> encodeTag (last (getTagSet value')) isConstructed = Some (Inr t)
      \<and> (\<not> isConstructed \<longrightarrow>
            eoo = [] \<and> hd l \<noteq> 0x80
          \<and> encodeLength (supportIndefLenMode self) (int (length substrate)) True = Some (Inr l))
      \<and> (l = [0x80] \<longrightarrow> isConstructed \<and> hd t AND 0x20 \<noteq> 0 \<and> eoo = [0, 0])
      \<and> (l \<noteq> [0x80] \<longrightarrow>
            eoo = []
          \<and> encodeLength (supportIndefLenMode self) (int (length substrate)) True = Some (Inr l))"
proof -
  define defMode' where "defMode' = (if \<not> isConstructed then True else defMode)"
  define sup where "sup = supportIndefLenMode self"
  from enc ev tagged have
    "with_state value' (
     rbind (encodeTag (last (getTagSet value')) isConstructed) (\<lambda>t.
     rbind (encodeLength sup (int (length substrate)) defMode') (\<lambda>l.
     rbind (AbstractItemEncoder_encodeEndOfOctets self (Encoder_call tagMap typeMap) defMode') (\<lambda>eoo.
     Some (Inr (t @ l @ substrate @ eoo)))))) = Some (Inr (frame, value''))"
    by (simp add: AbstractItemEncoder_encode_def rbind_def Let_def defMode'_def sup_def)
  then have
    "rbind (encodeTag (last (getTagSet value')) isConstructed) (\<lambda>t.
     rbind (encodeLength sup (int (length substrate)) defMode') (\<lambda>l.
     rbind (AbstractItemEncoder_encodeEndOfOctets self (Encoder_call tagMap typeMap) defMode') (\<lambda>eoo.
     Some (Inr (t @ l @ substrate @ eoo))))) = Some (Inr frame)"
    by (simp add: with_state_Some_Inr)
  then obtain t l eoo where
    t: "encodeTag (last (getTagSet value')) isConstructed = Some (Inr t)"
    and l: "encodeLength sup (int (length substrate)) defMode' = Some (Inr l)"
    and e: "AbstractItemEncoder_encodeEndOfOctets self (Encoder_call tagMap typeMap) defMode'
              = Some (Inr eoo)"
    and f: "frame = t @ l @ substrate @ eoo"
    by (auto dest!: rbind_Some_Inr)
  have n: "0 \<le> int (length substrate)" by simp
  show ?thesis
  proof (cases "\<not> defMode' \<and> sup")
    case True
    then have c: "isConstructed" "\<not> defMode" by (auto simp: defMode'_def split: if_splits)
    from True l have l80: "l = [0x80]" by (simp add: encodeLength_def int2oct_def)
    from True e Encoder_call_endOfOctets[OF eoc] have eo: "eoo = [0, 0]"
      by (simp add: AbstractItemEncoder_encodeEndOfOctets_def sup_def rbind_def)
    from t c have "hd t AND 0x20 \<noteq> 0" using encodeTag_constructed_bit by simp
    with t l80 eo c f show ?thesis
      by (intro exI[of _ t] exI[of _ l] exI[of _ eoo]) simp
  next
    case False
    with e have eo: "eoo = []"
      by (auto simp: AbstractItemEncoder_encodeEndOfOctets_def sup_def)
    from False l have ld: "encodeLength sup (int (length substrate)) True = Some (Inr l)"
      by (auto simp: encodeLength_def)
    from encodeLength_definite[OF n ld] have "hd l \<noteq> 0x80" by simp
    then have "l \<noteq> [0x80]" by auto
    with t ld eo f \<open>hd l \<noteq> 0x80\<close> show ?thesis
      by (intro exI[of _ t] exI[of _ l] exI[of _ eoo]) (simp add: sup_def)
  qed
qed

lemma tagMap_endOfOctets: "concreteEncoder tagMap typeMap endOfOctets = Inr EndOfOctetsEncoder"
  by (simp add: concreteEncoder_def tagMap_def endOfOctets_def Let_def)

theorem AbstractItemEncoder_encode_frame_witness:
  "concreteEncoder tagMap typeMap endOfOctets = Inr EndOfOctetsEncoder
   \<and> encodeValue OctetStringEncoder (Encoder_call tagMap typeMap) (OctetString [1, 2, 3]) False 2
        = Some (Inr (([4, 2, 1, 2, 4, 1, 3], True), OctetString [1, 2, 3]))
   \<and> AbstractItemEncoder_encode OctetStringEncoder (Encoder_call tagMap typeMap) (OctetString [1, 2, 3]) False 2
        = Some (Inr ([0x24, 0x80, 4, 2, 1, 2, 4, 1, 3, 0, 0], OctetString [1, 2, 3]))
   \<and> encodeTag (last (getTagSet (OctetString [1, 2, 3]))) True = Some (Inr [0x24])
   \<and> (0x24 :: int) AND 0x20 \<noteq> 0"
proof -
  have ev: "encodeValue OctetStringEncoder (Encoder_call tagMap typeMap) (OctetString [1, 2, 3]) False 2
        = Some (Inr (([4, 2, 1, 2, 4, 1, 3], True), OctetString [1, 2, 3]))"
    by code_simp
  have tg: "getTagSet (OctetString [1, 2, 3]) \<noteq> []" by (simp add: OctetString_def universal_def)
  have en: "AbstractItemEncoder_encode OctetStringEncoder (Encoder_call tagMap typeMap) (OctetString [1, 2, 3]) False 2
        = Some (Inr ([0x24, 0x80, 4, 2, 1, 2, 4, 1, 3, 0, 0], OctetString [1, 2, 3]))"
    by code_simp
  have t: "encodeTag (last (getTagSet (OctetString [1, 2, 3]))) True = Some (Inr [0x24])"
    by code_simp
  from AbstractItemEncoder_encode_frame[OF tagMap_endOfOctets ev tg en] tagMap_endOfOctets ev en t
  show ?thesis by simp
qed

text \<open>
  Claim C5. For every value, the dispatcher selects the explicit-tag wrapper when the tag
  set is longer than 1; otherwise the entry of the type-id map when the value has a type
  id that is present there; otherwise the entry of the tag-set map for the full tag set;
  otherwise the entry of the tag-set map for the base tag set; otherwise the call fails
  with the "no encoder" error.
\<close>

theorem Encoder_call_dispatch:
  "Encoder_call tagMap typeMap value defMode maxChunkSize =
     (if length (getTagSet value) > 1
      then AbstractItemEncoder_encode ExplicitlyTaggedItemEncoder (Encoder_call tagMap typeMap)
             value defMode maxChunkSize
      else if typeId value \<noteq> None \<and> the (typeId value) \<in> dom typeMap
      then AbstractItemEncoder_encode (the (typeMap (the (typeId value)))) (Encoder_call tagMap typeMap)
             value defMode maxChunkSize
      else if getTagSet value \<in> dom tagMap
      then AbstractItemEncoder_encode (the (tagMap (getTagSet value))) (Encoder_call tagMap typeMap)
             value defMode maxChunkSize
      else if baseTagSet value \<in> dom tagMap
      then AbstractItemEncoder_encode (the (tagMap (baseTagSet value))) (Encoder_call tagMap typeMap)
             value defMode maxChunkSize
      else Some (Inl (NoEncoder, value)))"
  by (subst Encoder_call.simps)
     (auto simp: concreteEncoder_def rbind_def with_state_def Let_def dom_def split: option.splits)

subsection \<open>SEQUENCE and SET components\<close>

lemma emitted_upto_Suc:
  "emitted_upto comps dflt (Suc n) =
     emitted_upto comps dflt n @
       (case comps ! n of
          None \<Rightarrow> []
        | Some c \<Rightarrow> (case dflt n of None \<Rightarrow> [c]
                     | Some d \<Rightarrow> if content d = content c then [] else [c]))"
  by (simp add: emitted_upto_def)

lemma emitted_upto_update:
  "n \<le> j \<Longrightarrow> emitted_upto (comps[j := x]) dflt n = emitted_upto comps dflt n"
  unfolding emitted_upto_def by (rule arg_cong[where f = concat], rule map_cong) auto

lemma SequenceEncoder_loop_step:
  assumes "comps ! idx = Some c"
    and "\<not> (case dflt idx of None \<Rightarrow> False | Some component \<Rightarrow> content component = content c)"
    and "SequenceEncoder_loop encodeFun comps dflt defMode maxChunkSize (Suc idx) substrate
           = Some (Inr (s, comps'))"
  shows "\<exists>out c'. encodeFun c defMode maxChunkSize = Some (Inr (out, c'))
           \<and> SequenceEncoder_loop encodeFun (comps[idx := Some c']) dflt defMode maxChunkSize
                idx (out @ substrate) = Some (Inr (s, comps'))"
proof -
  from assms have
    "rbind (in_state (\<lambda>c'. comps[idx := Some c']) (encodeFun c defMode maxChunkSize))
       (\<lambda>r. SequenceEncoder_loop encodeFun (snd r) dflt defMode maxChunkSize
              idx (fst r @ substrate)) = Some (Inr (s, comps'))" by simp
  from rbind_Some_Inr[OF this] obtain out cs where
    i: "in_state (\<lambda>c'. comps[idx := Some c']) (encodeFun c defMode maxChunkSize)
          = Some (Inr (out, cs))"
    and l: "SequenceEncoder_loop encodeFun cs dflt defMode maxChunkSize idx (out @ substrate)
          = Some (Inr (s, comps'))" by auto
  from i obtain c' where "encodeFun c defMode maxChunkSize = Some (Inr (out, c'))"
    "cs = comps[idx := Some c']" by (auto simp: in_state_Some_Inr)
  with l show ?thesis by blast
qed

lemma SequenceEncoder_loop_result:
  "SequenceEncoder_loop encodeFun comps dflt defMode maxChunkSize idx substrate = Some (Inr (s, comps'))
   \<Longrightarrow> \<exists>outs. list_all2 (\<lambda>c out. \<exists>c'. encodeFun c defMode maxChunkSize = Some (Inr (out, c')))
                 (emitted_upto comps dflt idx) outs
            \<and> s = concat outs @ substrate"
proof (induction idx arbitrary: comps substrate)
  case 0
  then show ?case by (simp add: emitted_upto_def)
next
  case (Suc idx)
  show ?case
  proof (cases "comps ! idx")
    case None
    with Suc.prems have "SequenceEncoder_loop encodeFun comps dflt defMode maxChunkSize idx substrate
        = Some (Inr (s, comps'))" by simp
    from Suc.IH[OF this] None show ?thesis by (simp add: emitted_upto_Suc)
  next
    case (Some c)
    show ?thesis
    proof (cases "case dflt idx of None \<Rightarrow> False | Some component \<Rightarrow> content component = content c")
      case True
      with Some Suc.prems have
        "SequenceEncoder_loop encodeFun comps dflt defMode maxChunkSize idx substrate
           = Some (Inr (s, comps'))" by simp
      from Suc.IH[OF this] Some True show ?thesis
        by (auto simp: emitted_upto_Suc split: option.splits)
    next
      case False
      from SequenceEncoder_loop_step[OF Some False Suc.prems] obtain out c' where
        e: "encodeFun c defMode maxChunkSize = Some (Inr (out, c'))"
        and l: "SequenceEncoder_loop encodeFun (comps[idx := Some c']) dflt defMode maxChunkSize
                  idx (out @ substrate) = Some (Inr (s, comps'))"
        by blast
      from Suc.IH[OF l] obtain outs where
        o: "list_all2 (\<lambda>c out. \<exists>c'. encodeFun c defMode maxChunkSize = Some (Inr (out, c')))
              (emitted_upto comps dflt idx) outs"
           "s = concat outs @ out @ substrate"
        by (auto simp: emitted_upto_update)
      have em: "emitted_upto comps dflt (Suc idx) = emitted_upto comps dflt idx @ [c]"
        using Some False by (auto simp: emitted_upto_Suc split: option.splits)
      have "list_all2 (\<lambda>c out. \<exists>c'. encodeFun c defMode maxChunkSize = Some (Inr (out, c')))
              (emitted_upto comps dflt (Suc idx)) (outs @ [out])"
        unfolding em using o(1) e by (auto intro: list_all2_appendI)
      moreover have "s = concat (outs @ [out]) @ substrate" using o(2) by simp
      ultimately show ?thesis by blast
    qed
  qed
qed

lemma SequenceEncoder_loop_succeeds:
  "list_all2 (\<lambda>c out. \<exists>c'. encodeFun c defMode maxChunkSize = Some (Inr (out, c')))
     (emitted_upto comps dflt idx) outs
   \<Longrightarrow> \<exists>comps'. SequenceEncoder_loop encodeFun comps dflt defMode maxChunkSize idx substrate
                  = Some (Inr (concat outs @ substrate, comps'))"
proof (induction idx arbitrary: comps substrate outs)
  case 0
  then show ?case by (simp add: emitted_upto_def)
next
  case (Suc idx)
  show ?case
  proof (cases "comps ! idx")
    case None
    with Suc.prems have "list_all2 (\<lambda>c out. \<exists>c'. encodeFun c defMode maxChunkSize = Some (Inr (out, c')))
       (emitted_upto comps dflt idx) outs" by (simp add: emitted_upto_Suc)
    from Suc.IH[OF this, of substrate] None show ?thesis by simp
  next
    case (Some c)
    show ?thesis
    proof (cases "case dflt idx of None \<Rightarrow> False | Some component \<Rightarrow> content component = content c")
      case True
      with Some Suc.prems have "list_all2 (\<lambda>c out. \<exists>c'. encodeFun c defMode maxChunkSize = Some (Inr (out, c')))
         (emitted_upto comps dflt idx) outs"
        by (auto simp: emitted_upto_Suc split: option.splits)
      from Suc.IH[OF this, of substrate] Some True show ?thesis by simp
    next
      case False
      have em: "emitted_upto comps dflt (Suc idx) = emitted_upto comps dflt idx @ [c]"
        using Some False by (auto simp: emitted_upto_Suc split: option.splits)
      with Suc.prems obtain outs' out where
        o: "outs = outs' @ [out]"
           "list_all2 (\<lambda>c out. \<exists>c'. encodeFun c defMode maxChunkSize = Some (Inr (out, c')))
              (emitted_upto comps dflt idx) outs'"
           "\<exists>c'. encodeFun c defMode maxChunkSize = Some (Inr (out, c'))"
        by (auto simp: list_all2_append1 list_all2_Cons1)
      from o(3) obtain c' where e: "encodeFun c defMode maxChunkSize = Some (Inr (out, c'))" by blast
      from o(2) have "list_all2 (\<lambda>c out. \<exists>c'. encodeFun c defMode maxChunkSize = Some (Inr (out, c')))
              (emitted_upto (comps[idx := Some c']) dflt idx) outs'"
        by (simp add: emitted_upto_update)
      from Suc.IH[OF this, of "out @ substrate"] Some False e o(1) show ?thesis
        by (simp add: rbind_def)
    qed
  qed
qed

lemma setDefaultComponents_Inr:
  assumes "setDefaultComponents value = Inr v1"
  shows "\<exists>comps types spec comps'. content value = SequenceV comps types spec
      \<and> setDefaultComponents_loop (length types) comps types = Inr comps'
      \<and> v1 = clone_content value (SequenceV comps' types spec)"
  using assms by (auto simp: setDefaultComponents_def split: content.splits sum.splits)

text \<open>
  Claim C6. For every SEQUENCE/SET value, \<^verbatim>\<open>SequenceEncoder.encodeValue\<close> first runs the
  value's \<^verbatim>\<open>setDefaultComponents\<close> and \<^verbatim>\<open>verifySizeSpec\<close> hooks: an error of either is the
  result (the first one taking precedence). Otherwise it returns, as constructed content, the
  concatenation in positional order of the encodings of exactly the components that, in the
  value as the hooks leave it, are present and do not equal their declared default
  (\<^term>\<open>emitted_components\<close>); absent components and components equal to their default
  contribute nothing. It succeeds exactly when the hooks succeed and each of these components
  is encoded successfully.
\<close>

theorem SequenceEncoder_encodeValue_components:
  "(\<forall>e v1. setDefaultComponents value = Inl (e, v1) \<longrightarrow>
        SequenceEncoder_encodeValue encodeFun value defMode maxChunkSize = Some (Inl (e, v1)))
   \<and> (\<forall>v1 e. setDefaultComponents value = Inr v1 \<and> verifySizeSpec v1 = Inl e \<longrightarrow>
        SequenceEncoder_encodeValue encodeFun value defMode maxChunkSize = Some (Inl (e, v1)))
   \<and> (\<forall>substrate isConstructed value'.
        SequenceEncoder_encodeValue encodeFun value defMode maxChunkSize
          = Some (Inr ((substrate, isConstructed), value')) \<longrightarrow>
        isConstructed
        \<and> (\<exists>v1 outs. setDefaultComponents value = Inr v1 \<and> verifySizeSpec v1 = Inr ()
              \<and> list_all2 (\<lambda>c out. \<exists>c'. encodeFun c defMode maxChunkSize = Some (Inr (out, c')))
                   (emitted_components v1) outs
              \<and> substrate = concat outs))
   \<and> (\<forall>v1 outs. setDefaultComponents value = Inr v1 \<and> verifySizeSpec v1 = Inr ()
        \<and> list_all2 (\<lambda>c out. \<exists>c'. encodeFun c defMode maxChunkSize = Some (Inr (out, c')))
             (emitted_components v1) outs \<longrightarrow>
        (\<exists>value'. SequenceEncoder_encodeValue encodeFun value defMode maxChunkSize
                     = Some (Inr ((concat outs, True), value'))))"
proof (intro conjI allI impI)
  fix e v1 assume "setDefaultComponents value = Inl (e, v1)"
  then show "SequenceEncoder_encodeValue encodeFun value defMode maxChunkSize = Some (Inl (e, v1))"
    by (simp add: SequenceEncoder_encodeValue_def rbind_def)
next
  fix v1 e assume "setDefaultComponents value = Inr v1 \<and> verifySizeSpec v1 = Inl e"
  then show "SequenceEncoder_encodeValue encodeFun value defMode maxChunkSize = Some (Inl (e, v1))"
    by (simp add: SequenceEncoder_encodeValue_def rbind_def)
next
  fix substrate isConstructed value'
  assume r: "SequenceEncoder_encodeValue encodeFun value defMode maxChunkSize
               = Some (Inr ((substrate, isConstructed), value'))"
  then obtain v1 where h1: "setDefaultComponents value = Inr v1"
    by (auto simp: SequenceEncoder_encodeValue_def dest!: rbind_Some_Inr)
  with r have h2: "verifySizeSpec v1 = Inr ()"
    by (cases "verifySizeSpec v1") (auto simp: SequenceEncoder_encodeValue_def rbind_def)
  from setDefaultComponents_Inr[OF h1] obtain comps types spec where
    c: "content v1 = SequenceV comps types spec" by (auto simp: clone_content_def)
  from r h1 h2 c have
    "rbind (in_state (\<lambda>comps'. clone_content v1 (SequenceV comps' types spec))
              (SequenceEncoder_loop encodeFun comps (getDefaultComponentByPosition v1)
                 defMode maxChunkSize (length comps) []))
       (\<lambda>r. Some (Inr ((fst r, True), snd r))) = Some (Inr ((substrate, isConstructed), value'))"
    by (simp add: SequenceEncoder_encodeValue_def rbind_def len_def)
  from rbind_Some_Inr[OF this] obtain s comps' where
    l: "SequenceEncoder_loop encodeFun comps (getDefaultComponentByPosition v1) defMode maxChunkSize
          (length comps) [] = Some (Inr (s, comps'))"
    and s: "substrate = s" and f: "isConstructed"
    by (auto simp: in_state_Some_Inr)
  from SequenceEncoder_loop_result[OF l] s c obtain outs where
    "list_all2 (\<lambda>c out. \<exists>c'. encodeFun c defMode maxChunkSize = Some (Inr (out, c')))
       (emitted_components v1) outs" "substrate = concat outs"
    by (auto simp: emitted_components_def)
  with h1 h2
  show "\<exists>v1 outs. setDefaultComponents value = Inr v1 \<and> verifySizeSpec v1 = Inr ()
      \<and> list_all2 (\<lambda>c out. \<exists>c'. encodeFun c defMode maxChunkSize = Some (Inr (out, c')))
           (emitted_components v1) outs
      \<and> substrate = concat outs" by auto
  from f show isConstructed .
next
  fix v1 outs
  assume a: "setDefaultComponents value = Inr v1 \<and> verifySizeSpec v1 = Inr ()
        \<and> list_all2 (\<lambda>c out. \<exists>c'. encodeFun c defMode maxChunkSize = Some (Inr (out, c')))
             (emitted_components v1) outs"
  then have h1: "setDefaultComponents value = Inr v1" and h2: "verifySizeSpec v1 = Inr ()" by auto
  from setDefaultComponents_Inr[OF h1] obtain comps types spec where
    c: "content v1 = SequenceV comps types spec" by (auto simp: clone_content_def)
  with a
  have "list_all2 (\<lambda>c out. \<exists>c'. encodeFun c defMode maxChunkSize = Some (Inr (out, c')))
       (emitted_upto comps (getDefaultComponentByPosition v1) (length comps)) outs"
    by (simp add: emitted_components_def)
  from SequenceEncoder_loop_succeeds[where encodeFun = encodeFun and defMode = defMode
      and maxChunkSize = maxChunkSize and substrate = "[]", OF this] obtain comps' where
    "SequenceEncoder_loop encodeFun comps (getDefaultComponentByPosition v1) defMode maxChunkSize
       (length comps) [] = Some (Inr (concat outs, comps'))" by auto
  with h1 h2 c show "\<exists>value'. SequenceEncoder_encodeValue encodeFun value defMode maxChunkSize
                     = Some (Inr ((concat outs, True), value'))"
    by (simp add: SequenceEncoder_encodeValue_def rbind_def len_def)
qed

theorem SequenceEncoder_encodeValue_components_witness:
  "setDefaultComponents example_sequence = Inr example_sequence_filled
   \<and> verifySizeSpec example_sequence_filled = Inr ()
   \<and> emitted_components example_sequence_filled = [Null, Integer 1]
   \<and> encode Null True 0 = Some (Inr ([5, 0], Null))
   \<and> encode (Integer 1) True 0 = Some (Inr ([2, 1, 1], Integer 1))
   \<and> SequenceEncoder_encodeValue encode example_sequence True 0
        = Some (Inr ((concat [[5, 0], [2, 1, 1]], True), example_sequence_filled))"
proof -
  have h1: "setDefaultComponents example_sequence = Inr example_sequence_filled" by code_simp
  have h2: "verifySizeSpec example_sequence_filled = Inr ()" by code_simp
  have em: "emitted_components example_sequence_filled = [Null, Integer 1]" by code_simp
  have e1: "encode Null True 0 = Some (Inr ([5, 0], Null))" by code_simp
  have e2: "encode (Integer 1) True 0 = Some (Inr ([2, 1, 1], Integer 1))" by code_simp
  have r: "SequenceEncoder_encodeValue encode example_sequence True 0
        = Some (Inr ((concat [[5, 0], [2, 1, 1]], True), example_sequence_filled))" by code_simp
  have la: "list_all2 (\<lambda>c out. \<exists>c'. encode c True 0 = Some (Inr (out, c')))
              (emitted_components example_sequence_filled) [[5, 0], [2, 1, 1]]"
    unfolding em using e1 e2 by simp
  from SequenceEncoder_encodeValue_components[of example_sequence encode True 0] h1 h2 la
  have "\<exists>value'. SequenceEncoder_encodeValue encode example_sequence True 0
          = Some (Inr ((concat [[5, 0], [2, 1, 1]], True), value'))" by blast
  with h1 h2 em e1 e2 r show ?thesis by simp
qed

subsection \<open>Changes to the encoded value\<close>

lemma value_after_simps [simp]:
  "value_after (Inl e) = snd e"
  "value_after (Inr x) = snd x"
  by (simp_all add: value_after_def split: prod.splits)


























end
